theory Spec2Isabelle
  imports Main "HOL-Library.Word"
begin

unbundle bit_operations_syntax

section \<open>Data model\<close>

text \<open>
  The module \<^verbatim>\<open>demo/full/scripts/lib/bytes.ts\<close> converts between JavaScript strings
  and \<^verbatim>\<open>Uint8Array\<close>s. A JavaScript string is a sequence of 16-bit code units, a
  \<^verbatim>\<open>Uint8Array\<close> a sequence of 8-bit values. The JavaScript numbers that occur in
  the module are non-negative integers (code units, bytes, indices, the arguments of
  \<^verbatim>\<open>intToHex\<close>), on which the arithmetic of the module is exact; they are modelled as
  \<open>nat\<close>, and \<^verbatim>\<open>NaN\<close> and \<^verbatim>\<open>undefined\<close> as \<open>None\<close>.
\<close>

type_synonym u8 = "8 word"
type_synonym u16 = "16 word"
type_synonym jsstring = "u16 list"
type_synonym uint8array = "u8 list"

text \<open>String literals of the source, as code units.\<close>

definition js :: "string \<Rightarrow> jsstring" where
  "js s = map (\<lambda>c. of_nat (of_char c)) s"

text \<open>\<^verbatim>\<open>bytes[i]\<close> on a typed array: \<^verbatim>\<open>undefined\<close> out of range.\<close>

definition at_u8 :: "uint8array \<Rightarrow> nat \<Rightarrow> nat option" where
  "at_u8 bytes i = (if i < length bytes then Some (unat (bytes ! i)) else None)"

text \<open>\<^verbatim>\<open>str[i]\<close> on a string: \<^verbatim>\<open>undefined\<close> out of range.\<close>

definition charAt :: "jsstring \<Rightarrow> nat \<Rightarrow> u16 option" where
  "charAt str i = (if i < length str then Some (str ! i) else None)"

text \<open>\<^verbatim>\<open>str.charCodeAt(i)\<close>: \<^verbatim>\<open>NaN\<close> out of range.\<close>

definition charCodeAt :: "jsstring \<Rightarrow> nat \<Rightarrow> nat option" where
  "charCodeAt str i = (if i < length str then Some (unat (str ! i)) else None)"

text \<open>
  The operand conversion of the bitwise operators (\<^verbatim>\<open>&\<close>, \<^verbatim>\<open><<\<close>, \<^verbatim>\<open>>>\<close>):
  \<^verbatim>\<open>undefined\<close> and \<^verbatim>\<open>NaN\<close> become 0; the operands of this module are code units
  and bytes, below \<open>2 ^ 16\<close>, and stay as they are.
\<close>

definition toInt32 :: "nat option \<Rightarrow> nat" where
  "toInt32 v = (case v of None \<Rightarrow> 0 | Some n \<Rightarrow> n)"

text \<open>\<^verbatim>\<open>String.fromCharCode(n)\<close>: the code unit \<open>n mod 2 ^ 16\<close>, and 0 for \<^verbatim>\<open>NaN\<close>.\<close>

definition fromCharCode :: "nat option \<Rightarrow> u16" where
  "fromCharCode v = (case v of None \<Rightarrow> 0 | Some n \<Rightarrow> of_nat n)"

text \<open>A store into a \<^verbatim>\<open>Uint8Array\<close> keeps the number modulo 256.\<close>

definition toUint8 :: "nat \<Rightarrow> u8" where
  "toUint8 n = of_nat n"

text \<open>
  The exceptions that the module's calls can throw, and the result of a computation that
  may throw: \<open>Inl\<close> the exception, \<open>Inr\<close> the value.
\<close>

datatype error = URIError | TypeError | RangeError

text \<open>A text put in front of the result of a computation that may have thrown.\<close>

definition emit :: "jsstring \<Rightarrow> error + jsstring \<Rightarrow> error + jsstring" where
  "emit s r = (case r of Inl e \<Rightarrow> Inl e | Inr t \<Rightarrow> Inr (s @ t))"

text \<open>One computation after another: an exception of the first ends both.\<close>

definition andThen :: "error + 'a \<Rightarrow> ('a \<Rightarrow> error + 'b) \<Rightarrow> error + 'b" where
  "andThen r f = (case r of Inl e \<Rightarrow> Inl e | Inr x \<Rightarrow> f x)"

section \<open>UTF-16, little-endian\<close>

text \<open>
  \<^verbatim>\<open>strToLeUtf16\<close>: the loop over the even offsets of the zero-filled result; an
  out-of-range store into a typed array is ignored, as \<open>list_update\<close> does.
\<close>

function strToLeUtf16_loop :: "jsstring \<Rightarrow> uint8array \<Rightarrow> nat \<Rightarrow> uint8array" where
  "strToLeUtf16_loop str res i =
     (if i < length res then
        (let value = toInt32 (charCodeAt str (i div 2)) in
           strToLeUtf16_loop str
             (res[i := toUint8 (value AND 0xFF),
                  i + 1 := toUint8 (drop_bit 8 value AND 0xFF)])
             (i + 2))
      else res)"
  by pat_completeness auto
termination
  by (relation "measure (\<lambda>(str, res, i). length res - i)") auto

declare strToLeUtf16_loop.simps [simp del]

definition strToLeUtf16 :: "jsstring \<Rightarrow> uint8array" where
  "strToLeUtf16 str = strToLeUtf16_loop str (replicate (length str * 2) 0) 0"

text \<open>
  \<^verbatim>\<open>leUtf16ToStr\<close>: \<^verbatim>\<open>bytes[i + 1]\<close> may be out of range, where it is
  \<^verbatim>\<open>undefined\<close> and the shift makes it 0; \<^verbatim>\<open>bytes[i]\<close> is in range by the loop's
  condition.
\<close>

function leUtf16ToStr_loop :: "uint8array \<Rightarrow> nat \<Rightarrow> jsstring \<Rightarrow> jsstring" where
  "leUtf16ToStr_loop bytes i str =
     (if i < length bytes then
        leUtf16ToStr_loop bytes (i + 2)
          (str @ [fromCharCode
                    (Some (push_bit 8 (toInt32 (at_u8 bytes (i + 1))) + unat (bytes ! i)))])
      else str)"
  by pat_completeness auto
termination
  by (relation "measure (\<lambda>(bytes, i, str). length bytes - i)") auto

declare leUtf16ToStr_loop.simps [simp del]

definition leUtf16ToStr :: "uint8array \<Rightarrow> jsstring" where
  "leUtf16ToStr bytes = leUtf16ToStr_loop bytes 0 []"

section \<open>Strings from char codes\<close>

text \<open>\<^verbatim>\<open>args.subarray(begin, end)\<close> for \<open>begin \<le> end\<close>: both ends are clamped to the length.\<close>

definition subarray :: "uint8array \<Rightarrow> nat \<Rightarrow> nat \<Rightarrow> uint8array" where
  "subarray args b e = take (e - b) (drop b args)"

text \<open>\<^verbatim>\<open>String.fromCharCode.apply(null, subArray)\<close>: one code unit per element.\<close>

definition fromCharCode_apply :: "uint8array \<Rightarrow> jsstring" where
  "fromCharCode_apply a = map (\<lambda>b. fromCharCode (Some (unat b))) a"

definition max_chunk :: nat where
  "max_chunk = 16000"

function stringFromCharCodes_loop :: "uint8array \<Rightarrow> nat \<Rightarrow> jsstring \<Rightarrow> jsstring" where
  "stringFromCharCodes_loop args i ret =
     (if i < length args then
        stringFromCharCodes_loop args (i + max_chunk)
          (ret @ fromCharCode_apply (subarray args i (i + max_chunk)))
      else ret)"
  by pat_completeness auto
termination
  by (relation "measure (\<lambda>(args, i, ret). length args - i)") (auto simp: max_chunk_def)

declare stringFromCharCodes_loop.simps [simp del]

definition stringFromCharCodes :: "uint8array \<Rightarrow> jsstring" where
  "stringFromCharCodes args = stringFromCharCodes_loop args 0 []"

section \<open>Hexadecimal\<close>

text \<open>The digit of a value below 16, lowercase, as \<^verbatim>\<open>Number.prototype.toString(16)\<close> writes it.\<close>

definition hexDigitLower :: "nat \<Rightarrow> u16" where
  "hexDigitLower d = (if d < 10 then of_nat (48 + d) else of_nat (87 + d))"

text \<open>\<^verbatim>\<open>num.toString(16)\<close> for a non-negative integer.\<close>

function toString16 :: "nat \<Rightarrow> jsstring" where
  "toString16 n = (if n < 16 then [hexDigitLower n]
                   else toString16 (n div 16) @ [hexDigitLower (n mod 16)])"
  by pat_completeness auto
termination
  by (relation "measure id") auto

declare toString16.simps [simp del]

text \<open>The value of a hexadecimal digit, in either case; and the digit classes.\<close>

definition isLowerHexDigit :: "u16 \<Rightarrow> bool" where
  "isLowerHexDigit c = ((0x30 \<le> unat c \<and> unat c \<le> 0x39) \<or> (0x61 \<le> unat c \<and> unat c \<le> 0x66))"

definition isHexDigit :: "u16 \<Rightarrow> bool" where
  "isHexDigit c = (isLowerHexDigit c \<or> (0x41 \<le> unat c \<and> unat c \<le> 0x46))"

definition hexDigitVal :: "u16 \<Rightarrow> nat" where
  "hexDigitVal c =
     (if unat c \<le> 0x39 then unat c - 0x30
      else if unat c \<le> 0x46 then unat c - 0x41 + 10
      else unat c - 0x61 + 10)"

text \<open>The number a string of hexadecimal digits denotes.\<close>

definition hexVal :: "jsstring \<Rightarrow> nat" where
  "hexVal s = foldl (\<lambda>a c. 16 * a + hexDigitVal c) 0 s"

text \<open>
  \<^verbatim>\<open>new Array(n).join("0")\<close>. \<^verbatim>\<open>new Array(n)\<close> throws a \<^verbatim>\<open>RangeError\<close> when \<open>n\<close> is
  not an array length, that is from \<open>2 ^ 32\<close> on (ECMA-262, Array(len)); otherwise the
  \<open>n\<close> empty slots are joined by "0", which gives \<open>n - 1\<close> zeros. What a host does
  when it runs out of memory, or when a text is longer than the host allows (ECMA-262
  allows \<open>2 ^ 53 - 1\<close> code units; current engines stop between \<open>2 ^ 28 - 16\<close> and
  \<open>2 ^ 31 - 1\<close>), is not part of this model, here as in the other functions.
\<close>

definition array_join0 :: "nat \<Rightarrow> error + jsstring" where
  "array_join0 n = (if n \<ge> 2 ^ 32 then Inl RangeError else Inr (replicate (n - 1) 0x30))"

text \<open>
  \<^verbatim>\<open>intToHex\<close> (lines 150 to 155): the join is evaluated only when the digits are
  fewer than \<open>sz\<close>, and its text is put in front of them.
\<close>

definition intToHex :: "nat \<Rightarrow> nat \<Rightarrow> error + jsstring" where
  "intToHex num sz =
     (let toStr = toString16 num in
        if length toStr \<ge> sz then Inr toStr
        else andThen (array_join0 (sz - length toStr + 1)) (\<lambda>zeros. Inr (zeros @ toStr)))"

section \<open>The host's URI and escape primitives\<close>

text \<open>
  The UTF-8 functions call four primitives of the host: \<^verbatim>\<open>encodeURIComponent\<close>,
  \<^verbatim>\<open>decodeURIComponent\<close>, \<^verbatim>\<open>unescape\<close> and \<^verbatim>\<open>escape\<close>. They are modelled after
  ECMA-262 (sections Encode, Decode, and Annex B, unescape and escape), the text the
  source itself links to. The first two always exist; the last two are deprecated and
  the source asks whether the host has them.
\<close>

record host =
  unescape_avail :: bool
  escape_avail :: bool

text \<open>
  The characters \<^verbatim>\<open>encodeURIComponent\<close> leaves as they are: letters, digits and
  \<^verbatim>\<open>- _ . ! ~ * ' ( )\<close>.
\<close>

definition isAlphaNum :: "u16 \<Rightarrow> bool" where
  "isAlphaNum c =
     ((0x41 \<le> unat c \<and> unat c \<le> 0x5A) \<or> (0x61 \<le> unat c \<and> unat c \<le> 0x7A) \<or>
      (0x30 \<le> unat c \<and> unat c \<le> 0x39))"

definition uriUnescaped :: "u16 \<Rightarrow> bool" where
  "uriUnescaped c =
     (isAlphaNum c \<or> unat c \<in> {0x2D, 0x5F, 0x2E, 0x21, 0x7E, 0x2A, 0x27, 0x28, 0x29})"

definition isLeadSurrogate :: "u16 \<Rightarrow> bool" where
  "isLeadSurrogate c = (0xD800 \<le> unat c \<and> unat c \<le> 0xDBFF)"

definition isTrailSurrogate :: "u16 \<Rightarrow> bool" where
  "isTrailSurrogate c = (0xDC00 \<le> unat c \<and> unat c \<le> 0xDFFF)"

definition surrogatePairToCodePoint :: "u16 \<Rightarrow> u16 \<Rightarrow> nat" where
  "surrogatePairToCodePoint lead trail =
     (unat lead - 0xD800) * 0x400 + (unat trail - 0xDC00) + 0x10000"

text \<open>The UTF-8 transformation of a code point into its octets.\<close>

definition utf8Octets :: "nat \<Rightarrow> nat list" where
  "utf8Octets cp =
     (if cp < 0x80 then [cp]
      else if cp < 0x800 then [0xC0 + cp div 64, 0x80 + cp mod 64]
      else if cp < 0x10000 then
        [0xE0 + cp div 4096, 0x80 + cp div 64 mod 64, 0x80 + cp mod 64]
      else
        [0xF0 + cp div 262144, 0x80 + cp div 4096 mod 64, 0x80 + cp div 64 mod 64,
         0x80 + cp mod 64])"

definition hexDigitUpper :: "nat \<Rightarrow> u16" where
  "hexDigitUpper d = (if d < 10 then of_nat (48 + d) else of_nat (55 + d))"

text \<open>An octet as \<^verbatim>\<open>%XX\<close>, uppercase.\<close>

definition percentEncode :: "nat \<Rightarrow> jsstring" where
  "percentEncode b = [0x25, hexDigitUpper (b div 16), hexDigitUpper (b mod 16)]"

text \<open>
  \<^verbatim>\<open>encodeURIComponent\<close>: a character of the unescaped set stays; any other code point
  is written as the percent-encoded octets of its UTF-8 encoding; an unpaired surrogate
  throws a \<^verbatim>\<open>URIError\<close>.
\<close>

fun encodeURIComponent :: "jsstring \<Rightarrow> error + jsstring" where
  "encodeURIComponent [] = Inr []"
| "encodeURIComponent (c # cs) =
     (if uriUnescaped c then emit [c] (encodeURIComponent cs)
      else if isLeadSurrogate c then
        (case cs of
           [] \<Rightarrow> Inl URIError
         | d # ds \<Rightarrow>
             if isTrailSurrogate d then
               emit (concat (map percentEncode (utf8Octets (surrogatePairToCodePoint c d))))
                 (encodeURIComponent ds)
             else Inl URIError)
      else if isTrailSurrogate c then Inl URIError
      else emit (concat (map percentEncode (utf8Octets (unat c)))) (encodeURIComponent cs))"

text \<open>
  \<^verbatim>\<open>unescape\<close> (ECMA-262, B.2.1.2): \<^verbatim>\<open>%uXXXX\<close> and \<^verbatim>\<open>%XX\<close> with hexadecimal digits
  become the code unit of that value, anything else stays.
\<close>

fun unescape_native :: "jsstring \<Rightarrow> jsstring" where
  "unescape_native [] = []"
| "unescape_native (c # s) =
     (if c = 0x25 \<and> 5 \<le> length s \<and> s ! 0 = 0x75 \<and> isHexDigit (s ! 1) \<and> isHexDigit (s ! 2) \<and>
         isHexDigit (s ! 3) \<and> isHexDigit (s ! 4)
      then of_nat (hexVal (take 4 (drop 1 s))) # unescape_native (drop 5 s)
      else if c = 0x25 \<and> 2 \<le> length s \<and> isHexDigit (s ! 0) \<and> isHexDigit (s ! 1)
      then of_nat (hexVal (take 2 s)) # unescape_native (drop 2 s)
      else c # unescape_native s)"

text \<open>
  \<^verbatim>\<open>escape\<close> (ECMA-262, B.2.1.1): letters, digits and \<^verbatim>\<open>@ * _ + - . /\<close> stay, any
  other code unit becomes \<^verbatim>\<open>%XX\<close> below 256 and \<^verbatim>\<open>%uXXXX\<close> from 256 on, uppercase.
\<close>

definition escapeUnescaped :: "u16 \<Rightarrow> bool" where
  "escapeUnescaped c = (isAlphaNum c \<or> unat c \<in> {0x40, 0x2A, 0x5F, 0x2B, 0x2D, 0x2E, 0x2F})"

definition escape_unit :: "u16 \<Rightarrow> jsstring" where
  "escape_unit c =
     (let n = unat c in
        if escapeUnescaped c then [c]
        else if n < 256 then percentEncode n
        else [0x25, 0x75, hexDigitUpper (n div 4096), hexDigitUpper (n div 256 mod 16),
              hexDigitUpper (n div 16 mod 16), hexDigitUpper (n mod 16)])"

definition escape_native :: "jsstring \<Rightarrow> jsstring" where
  "escape_native s = concat (map escape_unit s)"

text \<open>
  A call of \<^verbatim>\<open>unescape\<close> or \<^verbatim>\<open>escape\<close>: a host without the function throws (a
  \<^verbatim>\<open>ReferenceError\<close> when the name is not bound, a \<^verbatim>\<open>TypeError\<close> when it is bound to
  something that is no function; the model writes \<open>TypeError\<close> for both).
\<close>

definition call_unescape :: "host \<Rightarrow> jsstring \<Rightarrow> error + jsstring" where
  "call_unescape h s = (if unescape_avail h then Inr (unescape_native s) else Inl TypeError)"

definition call_escape :: "host \<Rightarrow> jsstring \<Rightarrow> error + jsstring" where
  "call_escape h s = (if escape_avail h then Inr (escape_native s) else Inl TypeError)"

text \<open>
  \<^verbatim>\<open>decodeURIComponent\<close>. The value of two hexadecimal digits; the number of leading
  one bits of an octet; the continuation octets \<^verbatim>\<open>%XX\<close> (of the form \<open>10xxxxxx\<close>) that
  follow a leading octet; the code point of a sequence of octets, when these are the
  UTF-8 encoding of a code point (not overlong, not a surrogate, at most 0x10FFFF).
\<close>

definition hexByte :: "u16 \<Rightarrow> u16 \<Rightarrow> nat option" where
  "hexByte a b =
     (if isHexDigit a \<and> isHexDigit b then Some (16 * hexDigitVal a + hexDigitVal b) else None)"

definition leadingOnes :: "nat \<Rightarrow> nat" where
  "leadingOnes B =
     (if B < 0x80 then 0 else if B < 0xC0 then 1 else if B < 0xE0 then 2
      else if B < 0xF0 then 3 else if B < 0xF8 then 4 else 5)"

fun contOctets :: "nat \<Rightarrow> jsstring \<Rightarrow> (nat list \<times> jsstring) option" where
  "contOctets 0 s = Some ([], s)"
| "contOctets (Suc n) (p # a # b # s) =
     (if p = 0x25 then
        (case hexByte a b of
           None \<Rightarrow> None
         | Some B \<Rightarrow>
             if B div 64 = 2 then
               (case contOctets n s of None \<Rightarrow> None | Some (bs, r) \<Rightarrow> Some (B # bs, r))
             else None)
      else None)"
| "contOctets (Suc n) s = None"

definition utf8Value :: "nat list \<Rightarrow> nat option" where
  "utf8Value octets =
     (case octets of
        [b0, b1] \<Rightarrow>
          (let v = (b0 mod 32) * 64 + b1 mod 64 in if 0x80 \<le> v then Some v else None)
      | [b0, b1, b2] \<Rightarrow>
          (let v = (b0 mod 16) * 4096 + (b1 mod 64) * 64 + b2 mod 64 in
           if 0x800 \<le> v \<and> \<not> (0xD800 \<le> v \<and> v \<le> 0xDFFF) then Some v else None)
      | [b0, b1, b2, b3] \<Rightarrow>
          (let v = (b0 mod 8) * 262144 + (b1 mod 64) * 4096 + (b2 mod 64) * 64 + b3 mod 64 in
           if 0x10000 \<le> v \<and> v \<le> 0x10FFFF then Some v else None)
      | _ \<Rightarrow> None)"

text \<open>The code units of a code point: itself, or its surrogate pair from 0x10000 on.\<close>

definition codeUnits :: "nat \<Rightarrow> jsstring" where
  "codeUnits v =
     (if v < 0x10000 then [of_nat v]
      else [of_nat ((v - 0x10000) div 1024 mod 1024 + 0xD800),
            of_nat ((v - 0x10000) mod 1024 + 0xDC00)])"

lemma contOctets_length:
  "contOctets n s = Some (bs, r) \<Longrightarrow> length r \<le> length s"
proof (induction n s arbitrary: bs r rule: contOctets.induct)
  case (1 s)
  then show ?case by simp
next
  case (2 n p a b s)
  then show ?case
    by (fastforce split: if_splits option.splits)
qed simp_all

function decodeURIComponent :: "jsstring \<Rightarrow> error + jsstring" where
  "decodeURIComponent [] = Inr []"
| "decodeURIComponent (c # s) =
     (if c \<noteq> 0x25 then emit [c] (decodeURIComponent s)
      else
        (case s of
           a # b # s' \<Rightarrow>
             (case hexByte a b of
                None \<Rightarrow> Inl URIError
              | Some B \<Rightarrow>
                  if B < 0x80 then emit [of_nat B] (decodeURIComponent s')
                  else
                    (let n = leadingOnes B in
                       if n = 1 \<or> n > 4 then Inl URIError
                       else
                         (case contOctets (n - 1) s' of
                            None \<Rightarrow> Inl URIError
                          | Some (bs, r) \<Rightarrow>
                              (case utf8Value (B # bs) of
                                 None \<Rightarrow> Inl URIError
                               | Some v \<Rightarrow> emit (codeUnits v) (decodeURIComponent r)))))
         | _ \<Rightarrow> Inl URIError))"
  by pat_completeness auto
termination
proof (relation "measure length", goal_cases)
  case 1
  then show ?case by simp
next
  case (2 c s)
  then show ?case by simp
next
  case (3 c s a list b s' B)
  then show ?case by simp
next
  case (4 c s a list b s' B n bsr bs r v)
  then show ?case
    using contOctets_length [of "leadingOnes B - 1" s' bs r] by simp
qed

declare decodeURIComponent.simps [simp del]

section \<open>UTF-8\<close>

text \<open>
  The regular expressions of the source. \<^verbatim>\<open>/[0-9a-fA-F]/.test(x)\<close> is applied to one
  character, or to \<^verbatim>\<open>undefined\<close> (an out-of-range index), which is converted to the
  text "undefined" and matches (it has a \<^verbatim>\<open>d\<close>). In \<^verbatim>\<open>/[A-Za-z0-9*_+-./]/\<close> the part
  \<^verbatim>\<open>+-.\<close> is the range from \<^verbatim>\<open>+\<close> (0x2B) to \<^verbatim>\<open>.\<close> (0x2E), so the class is: letters,
  digits, \<^verbatim>\<open>*\<close>, \<^verbatim>\<open>_\<close>, the characters 0x2B to 0x2E, and \<^verbatim>\<open>/\<close>.
\<close>

definition isHexChar_test :: "u16 option \<Rightarrow> bool" where
  "isHexChar_test x = (case x of None \<Rightarrow> True | Some c \<Rightarrow> isHexDigit c)"

definition nonEscapedChar_test :: "u16 \<Rightarrow> bool" where
  "nonEscapedChar_test c =
     (isAlphaNum c \<or> unat c = 0x2A \<or> unat c = 0x5F \<or> (0x2B \<le> unat c \<and> unat c \<le> 0x2E) \<or>
      unat c = 0x2F)"

text \<open>\<^verbatim>\<open>str.substring(b, e)\<close> for \<open>b \<le> e\<close>.\<close>

definition substring :: "jsstring \<Rightarrow> nat \<Rightarrow> nat \<Rightarrow> jsstring" where
  "substring s b e = take (e - b) (drop b s)"

text \<open>
  \<^verbatim>\<open>parseInt(s, 16)\<close>: an optional prefix \<^verbatim>\<open>0x\<close> or \<^verbatim>\<open>0X\<close> is skipped, the longest run of
  hexadecimal digits is read, and the result is \<^verbatim>\<open>NaN\<close> when that run is empty. Leading
  white space and a sign are not modelled: the source passes a substring that starts
  with \<^verbatim>\<open>u\<close> or with a hexadecimal digit.
\<close>

definition parseInt16 :: "jsstring \<Rightarrow> nat option" where
  "parseInt16 s =
     (let s' = (if take 2 s = [0x30, 0x78] \<or> take 2 s = [0x30, 0x58] then drop 2 s else s);
          z = takeWhile isHexDigit s'
      in if z = [] then None else Some (hexVal z))"

text \<open>The fallback of \<^verbatim>\<open>strToUtf8\<close> for a host without \<^verbatim>\<open>unescape\<close> (lines 77 to 107).\<close>

function unescape_fallback_loop :: "jsstring \<Rightarrow> nat \<Rightarrow> jsstring \<Rightarrow> jsstring" where
  "unescape_fallback_loop pcStr i utf8Str =
     (if i < length pcStr then
        (if charAt pcStr i = Some 0x25 then
           (if int i \<le> int (length pcStr) - 6 \<and>
               charAt pcStr (i + 1) = Some 0x75 \<and>
               isHexChar_test (charAt pcStr (i + 2)) \<and>
               isHexChar_test (charAt pcStr (i + 3)) \<and>
               isHexChar_test (charAt pcStr (i + 4)) \<and>
               isHexChar_test (charAt pcStr (i + 5))
            then
              unescape_fallback_loop pcStr (i + 5 + 1)
                (utf8Str @ [fromCharCode (parseInt16 (substring pcStr (i + 1) (i + 6)))])
            else if int i \<le> int (length pcStr) - 3 \<and>
               isHexChar_test (charAt pcStr (i + 1)) \<and>
               isHexChar_test (charAt pcStr (i + 2))
            then
              unescape_fallback_loop pcStr (i + 2 + 1)
                (utf8Str @ [fromCharCode (parseInt16 (substring pcStr (i + 1) (i + 3)))])
            else unescape_fallback_loop pcStr (i + 1) (utf8Str @ [pcStr ! i]))
         else unescape_fallback_loop pcStr (i + 1) (utf8Str @ [pcStr ! i]))
      else utf8Str)"
  by pat_completeness auto
termination
  by (relation "measure (\<lambda>(pcStr, i, utf8Str). length pcStr - i)") auto

declare unescape_fallback_loop.simps [simp del]

definition unescape_fallback :: "jsstring \<Rightarrow> jsstring" where
  "unescape_fallback pcStr = unescape_fallback_loop pcStr 0 []"

text \<open>The last loop of \<^verbatim>\<open>strToUtf8\<close> (lines 112 to 115).\<close>

function strToUtf8_fill :: "jsstring \<Rightarrow> uint8array \<Rightarrow> nat \<Rightarrow> uint8array" where
  "strToUtf8_fill utf8Str res i =
     (if i < length utf8Str then
        strToUtf8_fill utf8Str (res[i := toUint8 (toInt32 (charCodeAt utf8Str i) AND 0xFF)]) (i + 1)
      else res)"
  by pat_completeness auto
termination
  by (relation "measure (\<lambda>(utf8Str, res, i). length utf8Str - i)") auto

declare strToUtf8_fill.simps [simp del]

definition strToUtf8 :: "host \<Rightarrow> jsstring \<Rightarrow> error + uint8array" where
  "strToUtf8 h str =
     (case encodeURIComponent str of
        Inl e \<Rightarrow> Inl e
      | Inr pcStr \<Rightarrow>
          (case (if unescape_avail h then call_unescape h pcStr
                 else Inr (unescape_fallback pcStr)) of
             Inl e \<Rightarrow> Inl e
           | Inr utf8Str \<Rightarrow> Inr (strToUtf8_fill utf8Str (replicate (length utf8Str) 0) 0)))"

text \<open>
  \<^verbatim>\<open>utf8ToStr\<close>. First the test for the byte order mark (lines 163 to 168); an index
  out of range reads \<^verbatim>\<open>undefined\<close>, which is not \<^verbatim>\<open>===\<close> to a number.
\<close>

definition utf8ToStr_bom :: "uint8array \<Rightarrow> uint8array" where
  "utf8ToStr_bom data =
     (if at_u8 data 0 = Some 0xEF \<and> at_u8 data 1 = Some 0xBB \<and> at_u8 data 2 = Some 0xBF
      then drop 3 data else data)"

text \<open>The escaping loop of the source (lines 183 to 194).\<close>

function escape_fallback_loop :: "jsstring \<Rightarrow> nat \<Rightarrow> jsstring \<Rightarrow> error + jsstring" where
  "escape_fallback_loop utf8Str i escaped =
     (if i < length utf8Str then
        (if nonEscapedChar_test (utf8Str ! i) then
           escape_fallback_loop utf8Str (i + 1) (escaped @ [utf8Str ! i])
         else
           (let charCode = toInt32 (charCodeAt utf8Str i) in
              (case (if charCode \<ge> 256 then emit (js ''%u'') (intToHex charCode 4)
                     else emit (js ''%'') (intToHex charCode 2)) of
                 Inl e \<Rightarrow> Inl e
               | Inr piece \<Rightarrow> escape_fallback_loop utf8Str (i + 1) (escaped @ piece))))
      else Inr escaped)"
  by pat_completeness auto
termination
  by (relation "measure (\<lambda>(utf8Str, i, escaped). length utf8Str - i)") auto

declare escape_fallback_loop.simps [simp del]

definition escape_fallback :: "jsstring \<Rightarrow> error + jsstring" where
  "escape_fallback utf8Str = escape_fallback_loop utf8Str 0 []"

text \<open>
  The rest of \<^verbatim>\<open>utf8ToStr\<close> (lines 174 to 199). The source calls \<^verbatim>\<open>escape\<close> when
  \<^verbatim>\<open>typeof window.escape !== "function"\<close>, and runs its own loop otherwise.
\<close>

definition utf8ToStr_decode :: "host \<Rightarrow> uint8array \<Rightarrow> error + jsstring" where
  "utf8ToStr_decode h uint8 =
     (let utf8Str = stringFromCharCodes uint8 in
        andThen
          (if \<not> escape_avail h then call_escape h utf8Str else escape_fallback utf8Str)
          decodeURIComponent)"

definition utf8ToStr :: "host \<Rightarrow> uint8array \<Rightarrow> error + jsstring" where
  "utf8ToStr h data = utf8ToStr_decode h (utf8ToStr_bom data)"

section \<open>Characterisations used in the proofs\<close>

text \<open>The two bytes of a code unit, as the loop body computes them.\<close>

definition lowByte :: "u16 \<Rightarrow> u8" where
  "lowByte c = toUint8 (unat c AND 0xFF)"

definition highByte :: "u16 \<Rightarrow> u8" where
  "highByte c = toUint8 (drop_bit 8 (unat c) AND 0xFF)"

fun le16 :: "jsstring \<Rightarrow> uint8array" where
  "le16 [] = []"
| "le16 (c # cs) = lowByte c # highByte c # le16 cs"

text \<open>The code unit of a pair of bytes, as the decoding loop computes it.\<close>

definition unit16 :: "nat option \<Rightarrow> u8 \<Rightarrow> u16" where
  "unit16 hi lo = fromCharCode (Some (push_bit 8 (toInt32 hi) + unat lo))"

fun dec16 :: "uint8array \<Rightarrow> jsstring" where
  "dec16 [] = []"
| "dec16 [lo] = [unit16 None lo]"
| "dec16 (lo # hi # bs) = unit16 (Some (unat hi)) lo # dec16 bs"

text \<open>The one-pass reading of the spec: each byte becomes the code point of its value.\<close>

definition bytesToNativeString_onepass :: "uint8array \<Rightarrow> jsstring" where
  "bytesToNativeString_onepass bytes = map ucast bytes"

text \<open>
  A string without unpaired surrogates (what \<^verbatim>\<open>String.prototype.isWellFormed\<close> tests),
  and the octets of the UTF-8 encoding of such a string.
\<close>

fun wellFormed :: "jsstring \<Rightarrow> bool" where
  "wellFormed [] = True"
| "wellFormed (c # cs) =
     (if isLeadSurrogate c then
        (case cs of [] \<Rightarrow> False | d # ds \<Rightarrow> isTrailSurrogate d \<and> wellFormed ds)
      else \<not> isTrailSurrogate c \<and> wellFormed cs)"

fun utf8Units :: "jsstring \<Rightarrow> nat list" where
  "utf8Units [] = []"
| "utf8Units (c # cs) =
     (if isLeadSurrogate c then
        (case cs of
           [] \<Rightarrow> []
         | d # ds \<Rightarrow> utf8Octets (surrogatePairToCodePoint c d) @ utf8Units ds)
      else utf8Octets (unat c) @ utf8Units cs)"

text \<open>The fallback loop of \<^verbatim>\<open>strToUtf8\<close>, as a recursion over the rest of the string.\<close>

fun unescape_fallback_list :: "jsstring \<Rightarrow> jsstring" where
  "unescape_fallback_list [] = []"
| "unescape_fallback_list (c # s) =
     (if c = 0x25 \<and> 5 \<le> length s \<and> s ! 0 = 0x75 \<and> isHexDigit (s ! 1) \<and> isHexDigit (s ! 2) \<and>
         isHexDigit (s ! 3) \<and> isHexDigit (s ! 4)
      then fromCharCode (parseInt16 (take 5 s)) # unescape_fallback_list (drop 5 s)
      else if c = 0x25 \<and> 2 \<le> length s \<and> isHexDigit (s ! 0) \<and> isHexDigit (s ! 1)
      then fromCharCode (parseInt16 (take 2 s)) # unescape_fallback_list (drop 2 s)
      else c # unescape_fallback_list s)"

text \<open>
  The digits of a number with the zeros that bring them to \<open>sz\<close> digits: the value of
  \<^verbatim>\<open>intToHex\<close> when it returns. With it, what the escaping loop of \<^verbatim>\<open>utf8ToStr\<close>
  appends for one code unit.
\<close>

definition hexPadded :: "nat \<Rightarrow> nat \<Rightarrow> jsstring" where
  "hexPadded num sz = replicate (sz - length (toString16 num)) 0x30 @ toString16 num"

definition escape_fallback_unit :: "u16 \<Rightarrow> jsstring" where
  "escape_fallback_unit c =
     (if nonEscapedChar_test c then [c]
      else if unat c \<ge> 256 then js ''%u'' @ hexPadded (unat c) 4
      else js ''%'' @ hexPadded (unat c) 2)"

text \<open>The escaped text of a sequence of octets.\<close>

abbreviation escaped_octets :: "nat list \<Rightarrow> jsstring" where
  "escaped_octets bs \<equiv> concat (map (\<lambda>b. escape_fallback_unit (of_nat b)) bs)"

text \<open>
  \<^verbatim>\<open>decodeURIComponent\<close> read on the octets that an escaped text stands for, and
  what it means for a piece of text to stand for an octet: the character itself (ASCII,
  not \<^verbatim>\<open>%\<close>) or \<^verbatim>\<open>%\<close> and two hexadecimal digits.
\<close>

fun decodeOctets :: "nat list \<Rightarrow> error + jsstring" where
  "decodeOctets [] = Inr []"
| "decodeOctets (B # bs) =
     (if B < 0x80 then emit [of_nat B] (decodeOctets bs)
      else if leadingOnes B = 1 \<or> leadingOnes B > 4 then Inl URIError
      else if leadingOnes B - 1 \<le> length bs \<and>
              list_all (\<lambda>b. b div 64 = 2) (take (leadingOnes B - 1) bs) then
        (case utf8Value (B # take (leadingOnes B - 1) bs) of
           None \<Rightarrow> Inl URIError
         | Some v \<Rightarrow> emit (codeUnits v) (decodeOctets (drop (leadingOnes B - 1) bs)))
      else Inl URIError)"

definition escapes_octet :: "jsstring \<Rightarrow> nat \<Rightarrow> bool" where
  "escapes_octet s b =
     (case s of
        [c] \<Rightarrow> b < 0x80 \<and> b \<noteq> 0x25 \<and> c = of_nat b
      | [p, X, Y] \<Rightarrow> p = 0x25 \<and> hexByte X Y = Some b
      | _ \<Rightarrow> False)"

text \<open>A host that has both deprecated functions, as browsers do, and one that has neither.\<close>

definition browser :: host where
  "browser = \<lparr>unescape_avail = True, escape_avail = True\<rparr>"

definition bare_host :: host where
  "bare_host = \<lparr>unescape_avail = False, escape_avail = False\<rparr>"

section \<open>Proofs\<close>

subsection \<open>Bytes of a code unit\<close>

lemma and_255: "(n::nat) AND 255 = n mod 256"
proof -
  have "n AND mask 8 = take_bit 8 n" by (simp add: take_bit_eq_mask)
  then show ?thesis by (simp add: mask_eq_exp_minus_1 take_bit_eq_mod)
qed

lemma drop_bit_8: "drop_bit 8 (n::nat) = n div 256"
  by (simp add: drop_bit_eq_div)

lemma push_bit_8: "push_bit 8 (n::nat) = n * 256"
  by (simp add: push_bit_eq_mult)

lemma unat_u16_less: "unat (c::u16) < 65536"
  using unsigned_less [of c, where ?'a = nat] by simp

lemma unat_of_nat16: "n < 65536 \<Longrightarrow> unat (of_nat n :: u16) = n"
  by (simp add: unat_of_nat)

lemma unat_u8_less: "unat (b::u8) < 256"
  using unsigned_less [of b, where ?'a = nat] by simp

lemma unat_lowByte: "unat (lowByte c) = unat c mod 256"
  by (simp add: lowByte_def toUint8_def and_255 unat_of_nat)

lemma unat_highByte: "unat (highByte c) = unat c div 256"
proof -
  have "unat c div 256 < 256" using unat_u16_less [of c] by simp
  then show ?thesis
    by (simp add: highByte_def toUint8_def and_255 drop_bit_8 unat_of_nat)
qed

subsection \<open>UTF-16: the loops and the round trip\<close>

lemma length_le16: "length (le16 cs) = 2 * length cs"
  by (induction cs) auto

lemma strToLeUtf16_loop_eq:
  "even i \<Longrightarrow> length res = 2 * length str \<Longrightarrow>
   strToLeUtf16_loop str res i = take i res @ le16 (drop (i div 2) str)"
proof (induction str res i rule: strToLeUtf16_loop.induct)
  case (1 str res i)
  show ?case
  proof (cases "i < length res")
    case False
    with "1.prems" have "length str \<le> i div 2" by auto
    with False show ?thesis by (simp add: strToLeUtf16_loop.simps [of str res i])
  next
    case True
    define c where "c = str ! (i div 2)"
    have k: "i div 2 < length str" using True "1.prems" by auto
    have i1: "i + 1 < length res" using True "1.prems" by (auto elim!: evenE)
    define res' where "res' = res[i := lowByte c, i + 1 := highByte c]"
    have step: "strToLeUtf16_loop str res i = strToLeUtf16_loop str res' (i + 2)"
      using True k
      by (subst strToLeUtf16_loop.simps)
         (simp add: res'_def c_def charCodeAt_def toInt32_def lowByte_def highByte_def Let_def)
    have ih: "strToLeUtf16_loop str res' (i + 2) =
              take (i + 2) res' @ le16 (drop ((i + 2) div 2) str)"
      using "1.IH" [OF True refl] "1.prems" k
      by (simp add: res'_def c_def charCodeAt_def toInt32_def lowByte_def highByte_def)
    have tk: "take (i + 2) res' = take i res @ [lowByte c, highByte c]"
    proof -
      have "take (i + 2) res' = take (Suc (Suc i)) res'" by simp
      also have "\<dots> = take i res' @ [res' ! i, res' ! Suc i]"
        using i1 by (simp add: take_Suc_conv_app_nth res'_def)
      also have "\<dots> = take i res @ [lowByte c, highByte c]"
        using i1 by (simp add: res'_def)
      finally show ?thesis .
    qed
    have dr: "drop (i div 2) str = c # drop ((i + 2) div 2) str"
      using k by (simp add: c_def Cons_nth_drop_Suc)
    show ?thesis unfolding step ih tk dr by simp
  qed
qed

lemma strToLeUtf16_eq: "strToLeUtf16 str = le16 str"
  by (simp add: strToLeUtf16_def strToLeUtf16_loop_eq)

lemma leUtf16ToStr_loop_eq:
  "leUtf16ToStr_loop bytes i str = str @ dec16 (drop i bytes)"
proof (induction bytes i str rule: leUtf16ToStr_loop.induct)
  case (1 bytes i str)
  show ?case
  proof (cases "i < length bytes")
    case False
    then show ?thesis by (simp add: leUtf16ToStr_loop.simps [of bytes i str])
  next
    case True
    define u where "u = unit16 (at_u8 bytes (i + 1)) (bytes ! i)"
    have step: "leUtf16ToStr_loop bytes i str = leUtf16ToStr_loop bytes (i + 2) (str @ [u])"
      using True by (subst leUtf16ToStr_loop.simps) (simp add: u_def unit16_def)
    have ih: "leUtf16ToStr_loop bytes (i + 2) (str @ [u]) =
              (str @ [u]) @ dec16 (drop (i + 2) bytes)"
      using "1.IH" [OF True] by (simp add: u_def unit16_def)
    have dr: "dec16 (drop i bytes) = u # dec16 (drop (i + 2) bytes)"
    proof (cases "i + 1 < length bytes")
      case True
      then have "drop i bytes = bytes ! i # bytes ! (i + 1) # drop (i + 2) bytes"
        by (metis Cons_nth_drop_Suc Suc_eq_plus1 add_2_eq_Suc' add_lessD1)
      then show ?thesis using True by (simp add: u_def at_u8_def)
    next
      case False
      with \<open>i < length bytes\<close> have "drop i bytes = [bytes ! i]"
        by (metis Cons_nth_drop_Suc Suc_eq_plus1 drop_all not_less)
      then show ?thesis using False by (simp add: u_def at_u8_def)
    qed
    show ?thesis unfolding step ih dr by simp
  qed
qed

lemma leUtf16ToStr_eq: "leUtf16ToStr bytes = dec16 bytes"
  by (simp add: leUtf16ToStr_def leUtf16ToStr_loop_eq)

lemma unit16_bytes: "unit16 (Some (unat (highByte c))) (lowByte c) = c"
proof -
  have "unat c div 256 * 256 + unat c mod 256 = unat c" by simp
  then show ?thesis
    by (simp add: unit16_def fromCharCode_def toInt32_def push_bit_8 unat_lowByte unat_highByte)
qed

lemma dec16_le16: "dec16 (le16 t) = t"
  by (induction t) (simp_all add: unit16_bytes)

lemma unat_unit16: "unat (unit16 (Some (unat (hi :: u8))) lo) = unat hi * 256 + unat lo"
proof -
  have "unat hi * 256 + unat lo < 65536"
    using unat_u8_less [of hi] unat_u8_less [of lo] by simp
  moreover have "unit16 (Some (unat hi)) lo = of_nat (unat hi * 256 + unat lo)"
    by (simp only: unit16_def fromCharCode_def toInt32_def push_bit_8 option.case)
  ultimately show ?thesis by (simp only: unat_of_nat16)
qed

lemma bytes_unit16:
  "lowByte (unit16 (Some (unat (hi :: u8))) lo) = lo \<and>
   highByte (unit16 (Some (unat hi)) lo) = hi"
proof -
  have "unat (lowByte (unit16 (Some (unat hi)) lo)) = unat lo"
    using unat_u8_less [of lo] by (simp add: unat_lowByte unat_unit16)
  moreover have "unat (highByte (unit16 (Some (unat hi)) lo)) = unat hi"
    using unat_u8_less [of lo] by (simp add: unat_highByte unat_unit16)
  ultimately show ?thesis by (simp add: word_unat_eq_iff)
qed

lemma le16_dec16: "even (length bs) \<Longrightarrow> le16 (dec16 bs) = bs"
  by (induction bs rule: dec16.induct) (simp_all add: bytes_unit16)

text \<open>
  Claim C4. \<^verbatim>\<open>strToLeUtf16\<close> and \<^verbatim>\<open>leUtf16ToStr\<close> are total functions of their
  argument alone (both loops terminate, see the termination proofs of
  \<^const>\<open>strToLeUtf16_loop\<close> and \<^const>\<open>leUtf16ToStr_loop\<close>), and decoding the
  encoding of any string, whose code units are 16-bit values by type, gives the string
  back. They are inverse to each other: encoding the decoding of a buffer of even length
  gives the buffer back.
\<close>

theorem utf16_roundtrip:
  "leUtf16ToStr (strToLeUtf16 t) = t \<and>
   (even (length bytes) \<longrightarrow> strToLeUtf16 (leUtf16ToStr bytes) = bytes)"
  by (simp add: leUtf16ToStr_eq strToLeUtf16_eq dec16_le16 le16_dec16)

theorem utf16_roundtrip_witness:
  "leUtf16ToStr (strToLeUtf16 [0x1234]) = [0x1234] \<and>
   strToLeUtf16 (leUtf16ToStr [0x34, 0x12]) = [0x34, 0x12]"
proof -
  have "even (length [0x34, 0x12 :: u8])" by simp
  with utf16_roundtrip [of "[0x1234]" "[0x34, 0x12]"] show ?thesis by blast
qed

lemma le16_nth:
  "i < length cs \<Longrightarrow> le16 cs ! (2 * i) = lowByte (cs ! i) \<and> le16 cs ! (2 * i + 1) = highByte (cs ! i)"
proof (induction cs arbitrary: i)
  case Nil
  then show ?case by simp
next
  case (Cons c cs)
  show ?case
  proof (cases i)
    case 0
    then show ?thesis by simp
  next
    case (Suc j)
    with Cons.prems have "j < length cs" by simp
    from Cons.IH [OF this] show ?thesis using Suc by simp
  qed
qed

text \<open>
  Claim C5. The result of \<^verbatim>\<open>strToLeUtf16\<close> has twice as many bytes as the string has
  code units; the code unit \<open>v\<close> at index \<open>i\<close> is stored as \<open>v & 0xFF\<close> at offset
  \<open>2i\<close> and as \<open>(v >> 8) & 0xFF\<close> at offset \<open>2i + 1\<close>; the string "A" gives the
  bytes 0x41, 0x00.
\<close>

theorem strToLeUtf16_layout:
  "length (strToLeUtf16 t) = 2 * length t \<and>
   (\<forall>i < length t.
      unat (strToLeUtf16 t ! (2 * i)) = unat (t ! i) AND 0xFF \<and>
      unat (strToLeUtf16 t ! (2 * i + 1)) = drop_bit 8 (unat (t ! i)) AND 0xFF) \<and>
   strToLeUtf16 (js ''A'') = [0x41, 0x00]"
proof (intro conjI allI impI)
  show "length (strToLeUtf16 t) = 2 * length t"
    by (simp add: strToLeUtf16_eq length_le16)
next
  fix i assume "i < length t"
  then show "unat (strToLeUtf16 t ! (2 * i)) = unat (t ! i) AND 0xFF"
    by (simp add: strToLeUtf16_eq le16_nth unat_lowByte and_255)
next
  fix i assume "i < length t"
  then have "strToLeUtf16 t ! (2 * i + 1) = highByte (t ! i)"
    using le16_nth [of i t] by (simp add: strToLeUtf16_eq)
  then show "unat (strToLeUtf16 t ! (2 * i + 1)) = drop_bit 8 (unat (t ! i)) AND 0xFF"
    using unat_u16_less [of "t ! i"]
    by (simp add: unat_highByte and_255 drop_bit_8)
next
  show "strToLeUtf16 (js ''A'') = [0x41, 0x00]"
    by code_simp
qed

theorem strToLeUtf16_layout_witness:
  "length (strToLeUtf16 [0x1234, 0xD834]) = 4 \<and>
   unat (strToLeUtf16 [0x1234, 0xD834] ! 2) = 0x34 \<and>
   unat (strToLeUtf16 [0x1234, 0xD834] ! 3) = 0xD8"
proof -
  have "(1::nat) < length [0x1234, 0xD834 :: u16]" by simp
  with strToLeUtf16_layout [of "[0x1234, 0xD834]"]
  have "length (strToLeUtf16 [0x1234, 0xD834]) = 2 * length [0x1234, 0xD834 :: u16] \<and>
        unat (strToLeUtf16 [0x1234, 0xD834] ! (2 * 1)) = unat ([0x1234, 0xD834 :: u16] ! 1) AND 0xFF \<and>
        unat (strToLeUtf16 [0x1234, 0xD834] ! (2 * 1 + 1)) = drop_bit 8 (unat ([0x1234, 0xD834 :: u16] ! 1)) AND 0xFF"
    by blast
  then show ?thesis by (simp add: and_255 drop_bit_8)
qed

lemma dec16_snoc:
  "even (length bs) \<Longrightarrow> dec16 (bs @ [b]) = dec16 bs @ [unit16 None b]"
  by (induction bs rule: dec16.induct) simp_all

lemma dec16_snoc2:
  "even (length bs) \<Longrightarrow> dec16 (bs @ [b, 0]) = dec16 bs @ [unit16 None b]"
  by (induction bs rule: dec16.induct) (simp_all add: unit16_def toInt32_def)

lemma length_dec16: "length (dec16 bs) = (length bs + 1) div 2"
  by (induction bs rule: dec16.induct) simp_all

text \<open>
  Claim C2, as stated: on a buffer of odd length the trailing byte is dropped, so that
  the result is the decoding of the buffer without its last byte and has
  \<open>length div 2\<close> code units. The three-byte buffer 0x41, 0x00, 0x42 decodes to two
  code units, the second one being the trailing byte.
\<close>

theorem leUtf16ToStr_odd_counterexample:
  "odd (length [0x41, 0x00, 0x42 :: u8]) \<and>
   leUtf16ToStr [0x41, 0x00, 0x42] = [0x41, 0x42] \<and>
   leUtf16ToStr (butlast [0x41, 0x00, 0x42]) = [0x41] \<and>
   length (leUtf16ToStr [0x41, 0x00, 0x42]) \<noteq> length [0x41, 0x00, 0x42 :: u8] div 2"
  by (simp add: leUtf16ToStr_eq unit16_def fromCharCode_def toInt32_def)

text \<open>
  Claim C2, amended. On a buffer of odd length the loop runs once more for the trailing
  byte: the missing high byte reads as \<^verbatim>\<open>undefined\<close>, which the shift turns into 0.
  The result is the decoding of the buffer without its last byte, followed by the code
  unit whose value is the trailing byte; it equals the decoding of the buffer padded with
  one zero byte, and has \<open>(length + 1) div 2\<close> code units.
\<close>

theorem leUtf16ToStr_odd:
  assumes "odd (length bytes)"
  shows "leUtf16ToStr bytes =
           leUtf16ToStr (butlast bytes) @ [fromCharCode (Some (unat (last bytes)))] \<and>
         leUtf16ToStr bytes = leUtf16ToStr (bytes @ [0]) \<and>
         length (leUtf16ToStr bytes) = (length bytes + 1) div 2"
proof (intro conjI)
  from assms have ne: "bytes \<noteq> []" by auto
  then have split: "bytes = butlast bytes @ [last bytes]" by simp
  from assms ne have ev: "even (length (butlast bytes))" by simp
  have u: "unit16 None (last bytes) = fromCharCode (Some (unat (last bytes)))"
    by (simp add: unit16_def toInt32_def)
  have "dec16 bytes = dec16 (butlast bytes @ [last bytes])" using split by simp
  also have "\<dots> = dec16 (butlast bytes) @ [unit16 None (last bytes)]"
    using ev by (rule dec16_snoc)
  finally show "leUtf16ToStr bytes = leUtf16ToStr (butlast bytes) @ [fromCharCode (Some (unat (last bytes)))]"
    by (simp add: leUtf16ToStr_eq u)
  have "dec16 (bytes @ [0]) = dec16 (butlast bytes @ [last bytes, 0])"
    using split by (metis append.assoc append_Cons append_Nil)
  also have "\<dots> = dec16 (butlast bytes) @ [unit16 None (last bytes)]"
    using ev by (rule dec16_snoc2)
  also have "\<dots> = dec16 (butlast bytes @ [last bytes])"
    using ev by (rule dec16_snoc [symmetric])
  finally show "leUtf16ToStr bytes = leUtf16ToStr (bytes @ [0])"
    using split by (simp add: leUtf16ToStr_eq)
  show "length (leUtf16ToStr bytes) = (length bytes + 1) div 2"
    by (simp add: leUtf16ToStr_eq length_dec16)
qed

theorem leUtf16ToStr_odd_witness:
  "leUtf16ToStr [0x41, 0x00, 0x42] = leUtf16ToStr [0x41, 0x00] @ [0x42] \<and>
   leUtf16ToStr [0x41, 0x00, 0x42] = leUtf16ToStr [0x41, 0x00, 0x42, 0x00] \<and>
   length (leUtf16ToStr [0x41, 0x00, 0x42]) = 2"
proof -
  have "odd (length [0x41, 0x00, 0x42 :: u8])" by simp
  from leUtf16ToStr_odd [OF this] show ?thesis
    by (simp add: fromCharCode_def leUtf16ToStr_eq unit16_def toInt32_def)
qed

subsection \<open>Chunked construction of a string\<close>

lemma stringFromCharCodes_loop_eq:
  "stringFromCharCodes_loop args i ret = ret @ fromCharCode_apply (drop i args)"
proof (induction args i ret rule: stringFromCharCodes_loop.induct)
  case (1 args i ret)
  show ?case
  proof (cases "i < length args")
    case False
    then show ?thesis
      by (simp add: stringFromCharCodes_loop.simps [of args i ret] fromCharCode_apply_def)
  next
    case True
    have step: "stringFromCharCodes_loop args i ret =
                stringFromCharCodes_loop args (i + max_chunk)
                  (ret @ fromCharCode_apply (subarray args i (i + max_chunk)))"
      using True by (subst stringFromCharCodes_loop.simps) simp
    have "drop i args = take max_chunk (drop i args) @ drop (i + max_chunk) args"
      by (metis add.commute append_take_drop_id drop_drop)
    then have sp: "fromCharCode_apply (drop i args) =
                   fromCharCode_apply (subarray args i (i + max_chunk)) @
                   fromCharCode_apply (drop (i + max_chunk) args)"
      by (metis add_diff_cancel_left' fromCharCode_apply_def map_append subarray_def)
    show ?thesis unfolding step "1.IH" [OF True] sp by simp
  qed
qed

lemma stringFromCharCodes_eq: "stringFromCharCodes bytes = map ucast bytes"
  by (simp add: stringFromCharCodes_def stringFromCharCodes_loop_eq
      fromCharCode_apply_def fromCharCode_def)

text \<open>
  Claim C9. For every byte sequence, of any length, the text built by the loop over
  chunks of 16000 bytes is the text that maps each byte to one code point over the whole
  buffer in one pass; the empty buffer gives the empty text.
\<close>

theorem stringFromCharCodes_chunking:
  "stringFromCharCodes bytes = bytesToNativeString_onepass bytes \<and>
   stringFromCharCodes [] = []"
  by (simp add: stringFromCharCodes_eq bytesToNativeString_onepass_def)

subsection \<open>Padded hexadecimal\<close>

lemma unat_hexDigitLower:
  "d < 16 \<Longrightarrow> unat (hexDigitLower d) = (if d < 10 then 48 + d else 87 + d)"
  unfolding hexDigitLower_def by (simp only: unat_of_nat16 split: if_split) simp

lemma hexDigitVal_hexDigitLower: "d < 16 \<Longrightarrow> hexDigitVal (hexDigitLower d) = d"
  by (simp add: hexDigitVal_def unat_hexDigitLower)

lemma isLowerHexDigit_hexDigitLower: "d < 16 \<Longrightarrow> isLowerHexDigit (hexDigitLower d)"
  by (auto simp: isLowerHexDigit_def unat_hexDigitLower)

lemma hexVal_snoc: "hexVal (s @ [c]) = 16 * hexVal s + hexDigitVal c"
  by (simp add: hexVal_def)

lemma hexVal_toString16: "hexVal (toString16 n) = n"
proof (induction n rule: toString16.induct)
  case (1 n)
  show ?case
  proof (cases "n < 16")
    case True
    then show ?thesis
      by (subst toString16.simps) (simp add: hexVal_def hexDigitVal_hexDigitLower)
  next
    case False
    with 1 have "hexVal (toString16 (n div 16)) = n div 16" by simp
    with False show ?thesis
      by (subst toString16.simps) (simp add: hexVal_snoc hexDigitVal_hexDigitLower)
  qed
qed

lemma lower_toString16: "list_all isLowerHexDigit (toString16 n)"
proof (induction n rule: toString16.induct)
  case (1 n)
  show ?case
  proof (cases "n < 16")
    case True
    then show ?thesis
      by (subst toString16.simps) (simp add: isLowerHexDigit_hexDigitLower)
  next
    case False
    with 1 have "list_all isLowerHexDigit (toString16 (n div 16))" by simp
    with False show ?thesis
      by (subst toString16.simps) (simp add: isLowerHexDigit_hexDigitLower)
  qed
qed

lemma toString16_natural: "toString16 n \<noteq> [] \<and> (n \<noteq> 0 \<longrightarrow> hd (toString16 n) \<noteq> 0x30)"
proof (induction n rule: toString16.induct)
  case (1 n)
  show ?case
  proof (cases "n < 16")
    case True
    have "0 < n \<Longrightarrow> unat (hexDigitLower n) \<noteq> unat (0x30 :: u16)"
      using True by (simp add: unat_hexDigitLower)
    then have "0 < n \<Longrightarrow> hexDigitLower n \<noteq> 0x30" by metis
    with True show ?thesis
      by (subst (1 2) toString16.simps) auto
  next
    case False
    with 1 have "toString16 (n div 16) \<noteq> [] \<and> hd (toString16 (n div 16)) \<noteq> 0x30" by simp
    with False show ?thesis
      by (subst (1 2) toString16.simps) simp
  qed
qed

lemma hexVal_zeros: "hexVal (replicate k 0x30 @ s) = hexVal s"
proof -
  have "foldl (\<lambda>a c. 16 * a + hexDigitVal c) 0 (replicate k (0x30 :: u16)) = 0"
    by (induction k) (simp_all add: hexDigitVal_def)
  then show ?thesis by (simp add: hexVal_def)
qed

lemma replicate_numeral: "replicate (numeral k) x = x # replicate (pred_numeral k) x"
  by (simp add: numeral_eq_Suc)

lemma toString16_zero: "toString16 0 = js ''0''"
  by (simp add: toString16.simps hexDigitLower_def js_def)

lemma intToHex_eq:
  "intToHex num sz =
     (if sz < length (toString16 num) + 2 ^ 32 - 1 then Inr (hexPadded num sz)
      else Inl RangeError)"
proof (cases "sz \<le> length (toString16 num)")
  case True
  then show ?thesis by (simp add: intToHex_def hexPadded_def)
next
  case False
  then have "sz - length (toString16 num) + 1 - 1 = sz - length (toString16 num)" by simp
  with False show ?thesis
    by (auto simp: intToHex_def hexPadded_def array_join0_def andThen_def Let_def)
qed

lemma intToHex_small: "sz \<le> 4 \<Longrightarrow> intToHex num sz = Inr (hexPadded num sz)"
  by (simp add: intToHex_eq)

lemma hexPadded_digits: "list_all isLowerHexDigit (hexPadded num sz)"
proof -
  have "isLowerHexDigit 0x30" by (simp add: isLowerHexDigit_def)
  then have "list_all isLowerHexDigit (replicate k 0x30)" for k
    by (induction k) simp_all
  then show ?thesis by (simp add: hexPadded_def lower_toString16)
qed

lemma hexPadded_value: "hexVal (hexPadded num sz) = num"
  by (simp only: hexPadded_def hexVal_zeros hexVal_toString16)

lemma hexPadded_length: "length (hexPadded num sz) = max sz (length (toString16 num))"
  by (simp add: hexPadded_def)

text \<open>
  Claim C8, as stated: for every non-negative integer \<open>num\<close> and \<open>size\<close>,
  \<^verbatim>\<open>intToHex(num, size)\<close> returns the padded digits. With the size \<open>2 ^ 32\<close> the call
  \<^verbatim>\<open>new Array(size - toStr.length + 1)\<close> throws a \<^verbatim>\<open>RangeError\<close>.
\<close>

theorem intToHex_size_counterexample: "intToHex 5 (2 ^ 32) = Inl RangeError"
  by (simp add: intToHex_def toString16.simps array_join0_def andThen_def)

text \<open>
  Claim C8, amended. Let \<open>len\<close> be the number of digits of \<open>num\<close> in base 16, written
  in lowercase without leading zero (one digit "0" for 0). For every \<open>num\<close> and every
  \<open>sz\<close> up to \<open>2 ^ 28 - 16\<close> (a length of text that the current engines hold),
  \<^verbatim>\<open>intToHex(num, sz)\<close> returns these digits preceded by exactly the zeros that bring
  them to \<open>sz\<close> digits: lowercase hexadecimal digits that denote \<open>num\<close>, \<open>max sz len\<close>
  of them. For every \<open>sz\<close> it returns the digits themselves, never truncated, when
  \<open>len\<close> is \<open>sz\<close> or more. From \<open>sz = len + 2 ^ 32 - 1\<close> on the call throws a
  \<^verbatim>\<open>RangeError\<close>: the argument of \<^verbatim>\<open>new Array\<close> is no array length. Nothing is said
  of the sizes in between, where the host's limit on the length of a string decides. The
  five documented examples hold.
\<close>

theorem intToHex_pads:
  "(sz \<le> 2 ^ 28 - 16 \<longrightarrow>
      (\<exists>s. intToHex num sz = Inr s \<and> list_all isLowerHexDigit s \<and> hexVal s = num \<and>
           length s = max sz (length (toString16 num)) \<and>
           s = replicate (sz - length (toString16 num)) 0x30 @ toString16 num)) \<and>
   (length (toString16 num) + 2 ^ 32 - 1 \<le> sz \<longrightarrow> intToHex num sz = Inl RangeError) \<and>
   (sz \<le> length (toString16 num) \<longrightarrow> intToHex num sz = Inr (toString16 num)) \<and>
   toString16 num \<noteq> [] \<and> (num \<noteq> 0 \<longrightarrow> hd (toString16 num) \<noteq> 0x30) \<and>
   toString16 0 = js ''0'' \<and>
   list_all isLowerHexDigit (toString16 num) \<and> hexVal (toString16 num) = num \<and>
   intToHex 5 4 = Inr (js ''0005'') \<and> intToHex 5 2 = Inr (js ''05'') \<and>
   intToHex 10 1 = Inr (js ''a'') \<and> intToHex 268 3 = Inr (js ''10c'') \<and>
   intToHex 123456 4 = Inr (js ''1e240'')"
proof -
  have a: "sz \<le> 2 ^ 28 - 16 \<longrightarrow>
      (\<exists>s. intToHex num sz = Inr s \<and> list_all isLowerHexDigit s \<and> hexVal s = num \<and>
           length s = max sz (length (toString16 num)) \<and>
           s = replicate (sz - length (toString16 num)) 0x30 @ toString16 num)"
  proof
    assume "sz \<le> 2 ^ 28 - 16"
    then have "sz < length (toString16 num) + 2 ^ 32 - 1" by simp
    then have "intToHex num sz = Inr (hexPadded num sz)" by (simp add: intToHex_eq)
    moreover have "hexPadded num sz =
                   replicate (sz - length (toString16 num)) 0x30 @ toString16 num"
      by (simp add: hexPadded_def)
    ultimately show "\<exists>s. intToHex num sz = Inr s \<and> list_all isLowerHexDigit s \<and>
           hexVal s = num \<and> length s = max sz (length (toString16 num)) \<and>
           s = replicate (sz - length (toString16 num)) 0x30 @ toString16 num"
      using hexPadded_digits [of num sz] hexPadded_value [of num sz]
        hexPadded_length [of num sz]
      by (intro exI [of _ "hexPadded num sz"]) simp
  qed
  have b: "length (toString16 num) + 2 ^ 32 - 1 \<le> sz \<longrightarrow> intToHex num sz = Inl RangeError"
    by (simp add: intToHex_eq)
  have c: "sz \<le> length (toString16 num) \<longrightarrow> intToHex num sz = Inr (toString16 num)"
    by (simp add: intToHex_def)
  have d: "toString16 num \<noteq> []" "num \<noteq> 0 \<longrightarrow> hd (toString16 num) \<noteq> 0x30"
    using toString16_natural [of num] by simp_all
  have e1: "intToHex 5 4 = Inr (js ''0005'')"
    by (simp add: intToHex_small hexPadded_def toString16.simps hexDigitLower_def js_def
        replicate_numeral)
  have e2: "intToHex 5 2 = Inr (js ''05'')"
    by (simp add: intToHex_small hexPadded_def toString16.simps hexDigitLower_def js_def
        replicate_numeral)
  have e3: "intToHex 10 1 = Inr (js ''a'')"
    by (simp add: intToHex_small hexPadded_def toString16.simps hexDigitLower_def js_def
        replicate_numeral)
  have e4: "intToHex 268 3 = Inr (js ''10c'')"
    by (simp add: intToHex_small hexPadded_def toString16.simps hexDigitLower_def js_def
        replicate_numeral)
  have e5: "intToHex 123456 4 = Inr (js ''1e240'')"
    by (simp add: intToHex_small hexPadded_def toString16.simps hexDigitLower_def js_def
        replicate_numeral)
  show ?thesis
    by (intro conjI a b c d e1 e2 e3 e4 e5 toString16_zero lower_toString16 hexVal_toString16)
qed

theorem intToHex_pads_witness:
  "(\<exists>s. intToHex 5 4 = Inr s \<and> list_all isLowerHexDigit s \<and> hexVal s = 5 \<and> length s = 4) \<and>
   intToHex 5 (2 ^ 32) = Inl RangeError \<and>
   intToHex 123456 4 = Inr (toString16 123456) \<and> hd (toString16 123456) \<noteq> 0x30"
proof -
  have l5: "length (toString16 5) = 1" by (simp add: toString16.simps)
  have l: "(4::nat) \<le> length (toString16 123456)" by (simp add: toString16.simps)
  have n: "(123456::nat) \<noteq> 0" by simp
  have lt: "(4::nat) \<le> 2 ^ 28 - 16" by simp
  have ge: "length (toString16 5) + 2 ^ 32 - 1 \<le> (2 ^ 32 :: nat)" by (simp add: l5)
  from intToHex_pads [of 4 5] lt
  have 1: "\<exists>s. intToHex 5 4 = Inr s \<and> list_all isLowerHexDigit s \<and> hexVal s = 5 \<and> length s = 4"
    by (auto simp: l5)
  from intToHex_pads [of "2 ^ 32" 5] ge have 2: "intToHex 5 (2 ^ 32) = Inl RangeError" by blast
  from intToHex_pads [of 4 123456] l n
  have 3: "intToHex 123456 4 = Inr (toString16 123456)" "hd (toString16 123456) \<noteq> 0x30"
    by blast+
  from 1 2 3 show ?thesis by blast
qed

subsection \<open>Hexadecimal digits\<close>

lemma unat_hexDigitUpper:
  "d < 16 \<Longrightarrow> unat (hexDigitUpper d) = (if d < 10 then 48 + d else 55 + d)"
  unfolding hexDigitUpper_def by (simp only: unat_of_nat16 split: if_split) simp

lemma hexDigitVal_hexDigitUpper: "d < 16 \<Longrightarrow> hexDigitVal (hexDigitUpper d) = d"
  by (simp add: hexDigitVal_def unat_hexDigitUpper)

lemma isHexDigit_hexDigitUpper: "d < 16 \<Longrightarrow> isHexDigit (hexDigitUpper d)"
  by (auto simp: isHexDigit_def isLowerHexDigit_def unat_hexDigitUpper)

lemma isHexDigit_hexDigitLower: "d < 16 \<Longrightarrow> isHexDigit (hexDigitLower d)"
  by (simp add: isHexDigit_def isLowerHexDigit_hexDigitLower)

lemma hexVal_two: "hexVal [a, b] = 16 * hexDigitVal a + hexDigitVal b"
  by (simp add: hexVal_def)

lemma isHexDigit_not_u: "isHexDigit c \<Longrightarrow> c \<noteq> 0x75"
  by (auto simp: isHexDigit_def isLowerHexDigit_def)

lemma isHexDigit_not_x: "isHexDigit c \<Longrightarrow> c \<noteq> 0x78 \<and> c \<noteq> 0x58"
  by (auto simp: isHexDigit_def isLowerHexDigit_def)

lemma parseInt16_two:
  "isHexDigit a \<Longrightarrow> isHexDigit b \<Longrightarrow> parseInt16 [a, b] = Some (hexVal [a, b])"
  using isHexDigit_not_x [of b] by (simp add: parseInt16_def)

subsection \<open>The fallback loop of strToUtf8 as a recursion on lists\<close>

lemma unescape_fallback_loop_eq:
  "unescape_fallback_loop s i acc = acc @ unescape_fallback_list (drop i s)"
proof (induction s i acc rule: unescape_fallback_loop.induct)
  case (1 s i acc)
  show ?case
  proof (cases "i < length s")
    case False
    then show ?thesis by (simp add: unescape_fallback_loop.simps [of s i acc])
  next
    case True
    define c where "c = s ! i"
    define r where "r = drop (Suc i) s"
    have dr: "drop i s = c # r"
      using True by (simp add: c_def r_def Cons_nth_drop_Suc)
    have lr: "length r = length s - Suc i" by (simp add: r_def)
    have c0: "charAt s i = Some c" using True by (simp add: charAt_def c_def)
    have ck: "charAt s (i + Suc k) = (if k < length r then Some (r ! k) else None)" for k
      by (auto simp: charAt_def r_def)
    have len6: "(int i \<le> int (length s) - 6) = (5 \<le> length r)" using True lr by auto
    have len3: "(int i \<le> int (length s) - 3) = (2 \<le> length r)" using True lr by auto
    have sub5: "substring s (i + 1) (i + 6) = take 5 r" by (simp add: substring_def r_def)
    have sub2: "substring s (i + 1) (i + 3) = take 2 r" by (simp add: substring_def r_def)
    have d5: "drop (i + 5 + 1) s = drop 5 r" by (simp add: r_def add.commute)
    have d2: "drop (i + 2 + 1) s = drop 2 r" by (simp add: r_def add.commute)
    have d1: "drop (i + 1) s = r" by (simp add: r_def)
    let ?A = "int i \<le> int (length s) - 6 \<and> charAt s (i + 1) = Some 0x75 \<and>
              isHexChar_test (charAt s (i + 2)) \<and> isHexChar_test (charAt s (i + 3)) \<and>
              isHexChar_test (charAt s (i + 4)) \<and> isHexChar_test (charAt s (i + 5))"
    let ?A' = "5 \<le> length r \<and> r ! 0 = 0x75 \<and> isHexDigit (r ! 1) \<and> isHexDigit (r ! 2) \<and>
               isHexDigit (r ! 3) \<and> isHexDigit (r ! 4)"
    let ?B = "int i \<le> int (length s) - 3 \<and> isHexChar_test (charAt s (i + 1)) \<and>
              isHexChar_test (charAt s (i + 2))"
    let ?B' = "2 \<le> length r \<and> isHexDigit (r ! 0) \<and> isHexDigit (r ! 1)"
    have A: "?A = ?A'"
      using ck [of 0] ck [of 1] ck [of 2] ck [of 3] ck [of 4]
      by (auto simp: len6 isHexChar_test_def numeral_eq_Suc)
    have B: "?B = ?B'"
      using ck [of 0] ck [of 1]
      by (auto simp: len3 isHexChar_test_def numeral_eq_Suc)
    show ?thesis
    proof (cases "c = 0x25")
      case False
      then have step: "unescape_fallback_loop s i acc = unescape_fallback_loop s (i + 1) (acc @ [c])"
        using True c0 by (subst unescape_fallback_loop.simps) (simp add: c_def)
      have ih: "unescape_fallback_loop s (i + 1) (acc @ [c]) =
                (acc @ [c]) @ unescape_fallback_list (drop (i + 1) s)"
        using "1.IH"(4) [OF True] False c0 by (simp add: c_def)
      show ?thesis unfolding step ih dr d1 using False by simp
    next
      case pc: True
      have c0': "charAt s i = Some 0x25" using c0 pc by simp
      show ?thesis
      proof (cases ?A)
        case a: True
        define u where "u = fromCharCode (parseInt16 (take 5 r))"
        have step: "unescape_fallback_loop s i acc = unescape_fallback_loop s (i + 5 + 1) (acc @ [u])"
          by (subst unescape_fallback_loop.simps)
             (simp only: True c0' a if_True simp_thms sub5 u_def)
        have ih: "unescape_fallback_loop s (i + 5 + 1) (acc @ [u]) =
                  (acc @ [u]) @ unescape_fallback_list (drop (i + 5 + 1) s)"
          using "1.IH"(1) [OF True c0' a] by (simp only: sub5 u_def)
        from a A have a': ?A' by blast
        have "unescape_fallback_list (c # r) = u # unescape_fallback_list (drop 5 r)"
          by (subst unescape_fallback_list.simps) (simp only: pc a' simp_thms if_True u_def)
        then show ?thesis unfolding step ih dr d5 by simp
      next
        case na: False
        from na A have na': "\<not> ?A'" by blast
        show ?thesis
        proof (cases ?B)
          case b: True
          define u where "u = fromCharCode (parseInt16 (take 2 r))"
          have step: "unescape_fallback_loop s i acc = unescape_fallback_loop s (i + 2 + 1) (acc @ [u])"
            by (subst unescape_fallback_loop.simps)
               (simp only: True c0' na if_True if_False simp_thms,
                simp only: b if_True simp_thms sub2 u_def)
          have ih: "unescape_fallback_loop s (i + 2 + 1) (acc @ [u]) =
                    (acc @ [u]) @ unescape_fallback_list (drop (i + 2 + 1) s)"
            using "1.IH"(2) [OF True c0' na b] by (simp only: sub2 u_def)
          from b B have b': ?B' by blast
          have "unescape_fallback_list (c # r) = u # unescape_fallback_list (drop 2 r)"
            by (subst unescape_fallback_list.simps)
               (simp only: pc na' simp_thms if_False, simp only: b' simp_thms if_True u_def)
          then show ?thesis unfolding step ih dr d2 by simp
        next
          case nb: False
          from nb B have nb': "\<not> ?B'" by blast
          have step: "unescape_fallback_loop s i acc = unescape_fallback_loop s (i + 1) (acc @ [c])"
            by (subst unescape_fallback_loop.simps)
               (simp only: True c0' na if_True if_False simp_thms,
                simp only: nb if_False simp_thms c_def)
          have ih: "unescape_fallback_loop s (i + 1) (acc @ [c]) =
                    (acc @ [c]) @ unescape_fallback_list (drop (i + 1) s)"
            using "1.IH"(3) [OF True c0' na nb] by (simp only: c_def)
          have "unescape_fallback_list (c # r) = c # unescape_fallback_list r"
            by (subst unescape_fallback_list.simps)
               (simp only: pc na' simp_thms if_False, simp only: nb' simp_thms if_False)
          then show ?thesis unfolding step ih dr d1 by simp
        qed
      qed
    qed
  qed
qed

lemma unescape_fallback_eq: "unescape_fallback s = unescape_fallback_list s"
  by (simp add: unescape_fallback_def unescape_fallback_loop_eq)

subsection \<open>Percent-encoded octets and the two unescape functions\<close>

lemma emit_Inr_iff: "emit s r = Inr p \<longleftrightarrow> (\<exists>p'. r = Inr p' \<and> p = s @ p')"
  by (cases r) (auto simp: emit_def)

lemma emit_Inr [simp]: "emit s (Inr p) = Inr (s @ p)"
  by (simp add: emit_def)

lemma emit_Inl [simp]: "emit s (Inl e) = Inl e"
  by (simp add: emit_def)

lemma unescape_native_lit: "c \<noteq> 0x25 \<Longrightarrow> unescape_native (c # r) = c # unescape_native r"
  by simp

lemma unescape_native_pct:
  assumes "isHexDigit X" "isHexDigit Y"
  shows "unescape_native (0x25 # X # Y # r) = of_nat (hexVal [X, Y]) # unescape_native r"
  using assms isHexDigit_not_u [of X] by simp

lemma unescape_fallback_list_lit:
  "c \<noteq> 0x25 \<Longrightarrow> unescape_fallback_list (c # r) = c # unescape_fallback_list r"
  by simp

lemma unescape_fallback_list_pct:
  assumes "isHexDigit X" "isHexDigit Y"
  shows "unescape_fallback_list (0x25 # X # Y # r) =
         of_nat (hexVal [X, Y]) # unescape_fallback_list r"
  using assms isHexDigit_not_u [of X] parseInt16_two [OF assms]
  by (simp add: fromCharCode_def)

lemma utf8Octets_bound:
  assumes "cp < 0x110000" "b \<in> set (utf8Octets cp)"
  shows "b < 256"
  using assms by (auto simp: utf8Octets_def split: if_splits)

lemma surrogatePair_bound:
  assumes "isLeadSurrogate c" "isTrailSurrogate d"
  shows "0x10000 \<le> surrogatePairToCodePoint c d \<and> surrogatePairToCodePoint c d < 0x110000"
  using assms
  unfolding isLeadSurrogate_def isTrailSurrogate_def surrogatePairToCodePoint_def
  by arith

lemma uriUnescaped_ascii: "uriUnescaped c \<Longrightarrow> unat c < 0x80 \<and> c \<noteq> 0x25"
  by (auto simp: uriUnescaped_def isAlphaNum_def)

lemma ascii_not_surrogate: "unat c < 0x80 \<Longrightarrow> \<not> isLeadSurrogate c \<and> \<not> isTrailSurrogate c"
  by (simp add: isLeadSurrogate_def isTrailSurrogate_def)

lemma utf8Units_ascii: "unat c < 0x80 \<Longrightarrow> utf8Units (c # cs) = unat c # utf8Units cs"
  by (simp add: ascii_not_surrogate utf8Octets_def)

lemma of_nat_unat16: "(of_nat (unat c) :: u16) = c"
  by simp

lemma unescape_octets:
  fixes f :: "jsstring \<Rightarrow> jsstring"
  assumes pct: "\<And>X Y r. isHexDigit X \<Longrightarrow> isHexDigit Y \<Longrightarrow>
                  f (0x25 # X # Y # r) = of_nat (hexVal [X, Y]) # f r"
  shows "\<forall>b \<in> set bs. b < 256 \<Longrightarrow>
         f (concat (map percentEncode bs) @ r) = map of_nat bs @ f r"
proof (induction bs)
  case Nil
  then show ?case by simp
next
  case (Cons b bs)
  then have b: "b < 256" by simp
  then have hi: "b div 16 < 16" and lo: "b mod 16 < 16" by simp_all
  have v: "hexVal [hexDigitUpper (b div 16), hexDigitUpper (b mod 16)] = b"
    by (simp add: hexVal_two hexDigitVal_hexDigitUpper hi lo)
  have "f (concat (map percentEncode (b # bs)) @ r) =
        f (0x25 # hexDigitUpper (b div 16) # hexDigitUpper (b mod 16) #
           (concat (map percentEncode bs) @ r))"
    by (simp add: percentEncode_def)
  also have "\<dots> = of_nat b # f (concat (map percentEncode bs) @ r)"
    using pct [OF isHexDigit_hexDigitUpper [OF hi] isHexDigit_hexDigitUpper [OF lo]] v by simp
  finally show ?case using Cons by simp
qed

lemma unescape_of_encode:
  fixes f :: "jsstring \<Rightarrow> jsstring"
  assumes nil: "f [] = []"
    and lit: "\<And>c r. c \<noteq> 0x25 \<Longrightarrow> f (c # r) = c # f r"
    and pct: "\<And>X Y r. isHexDigit X \<Longrightarrow> isHexDigit Y \<Longrightarrow>
                f (0x25 # X # Y # r) = of_nat (hexVal [X, Y]) # f r"
  shows "encodeURIComponent t = Inr p \<Longrightarrow> f p = map of_nat (utf8Units t)"
proof (induction t arbitrary: p rule: encodeURIComponent.induct)
  case 1
  then show ?case by (simp add: nil)
next
  case (2 c cs)
  have oct: "f (concat (map percentEncode bs) @ r) = map of_nat bs @ f r"
    if "\<forall>b \<in> set bs. b < 256" for bs r
  proof (rule unescape_octets)
    fix X Y r'
    assume "isHexDigit X" "isHexDigit Y"
    then show "f (0x25 # X # Y # r') = of_nat (hexVal [X, Y]) # f r'" by (rule pct)
  next
    show "\<forall>b \<in> set bs. b < 256" by (rule that)
  qed
  show ?case
  proof (cases "uriUnescaped c")
    case True
    with "2.prems" obtain p' where p': "encodeURIComponent cs = Inr p'" "p = c # p'"
      by (auto simp: emit_Inr_iff)
    from uriUnescaped_ascii [OF True] have a: "unat c < 0x80" and np: "c \<noteq> 0x25" by simp_all
    have "f p = c # f p'" using p' lit [OF np] by simp
    also have "f p' = map of_nat (utf8Units cs)" using "2.IH"(1) [OF True p'(1)] .
    finally show ?thesis unfolding utf8Units_ascii [OF a] by simp
  next
    case nu: False
    show ?thesis
    proof (cases "isLeadSurrogate c")
      case lead: True
      with nu "2.prems" obtain d ds where cs: "cs = d # ds" and tr: "isTrailSurrogate d"
        by (cases cs) (auto split: if_splits)
      define cp where "cp = surrogatePairToCodePoint c d"
      from nu lead cs tr "2.prems" obtain p' where
        p': "encodeURIComponent ds = Inr p'" "p = concat (map percentEncode (utf8Octets cp)) @ p'"
        by (auto simp: emit_Inr_iff cp_def)
      have bnd: "\<forall>b \<in> set (utf8Octets cp). b < 256"
        using surrogatePair_bound [OF lead tr] utf8Octets_bound [of cp] by (auto simp: cp_def)
      have "f p = map of_nat (utf8Octets cp) @ f p'"
        unfolding p'(2) by (rule oct [OF bnd])
      also have "f p' = map of_nat (utf8Units ds)"
        using "2.IH"(2) [OF nu lead cs tr p'(1)] .
      finally show ?thesis using lead cs by (simp add: cp_def)
    next
      case nl: False
      with nu "2.prems" have nt: "\<not> isTrailSurrogate c" by (auto split: if_splits)
      from nu nl nt "2.prems" obtain p' where
        p': "encodeURIComponent cs = Inr p'"
            "p = concat (map percentEncode (utf8Octets (unat c))) @ p'"
        by (auto simp: emit_Inr_iff)
      have bnd: "\<forall>b \<in> set (utf8Octets (unat c)). b < 256"
        using unat_u16_less [of c] utf8Octets_bound [of "unat c"] by auto
      have "f p = map of_nat (utf8Octets (unat c)) @ f p'"
        unfolding p'(2) by (rule oct [OF bnd])
      also have "f p' = map of_nat (utf8Units cs)"
        using "2.IH"(3) [OF nu nl nt p'(1)] .
      finally show ?thesis using nl by simp
    qed
  qed
qed

lemma unescape_native_encode:
  "encodeURIComponent t = Inr p \<Longrightarrow> unescape_native p = map of_nat (utf8Units t)"
  by (rule unescape_of_encode [of unescape_native, OF _ unescape_native_lit unescape_native_pct])
     simp_all

lemma unescape_fallback_encode:
  "encodeURIComponent t = Inr p \<Longrightarrow> unescape_fallback p = map of_nat (utf8Units t)"
  unfolding unescape_fallback_eq
  by (rule unescape_of_encode
        [of unescape_fallback_list, OF _ unescape_fallback_list_lit unescape_fallback_list_pct])
     simp_all

lemma encode_wellFormed:
  "(wellFormed t \<longrightarrow> (\<exists>p. encodeURIComponent t = Inr p)) \<and>
   (\<not> wellFormed t \<longrightarrow> encodeURIComponent t = Inl URIError)"
proof (induction t rule: encodeURIComponent.induct)
  case 1
  then show ?case by simp
next
  case (2 c cs)
  show ?case
  proof (cases "uriUnescaped c")
    case True
    from uriUnescaped_ascii [OF True] ascii_not_surrogate [of c]
    have "\<not> isLeadSurrogate c" "\<not> isTrailSurrogate c" by simp_all
    with True "2.IH"(1) [OF True] show ?thesis
      by (cases "encodeURIComponent cs") (auto simp: emit_def)
  next
    case nu: False
    show ?thesis
    proof (cases "isLeadSurrogate c")
      case lead: True
      show ?thesis
      proof (cases cs)
        case Nil
        with nu lead show ?thesis by simp
      next
        case (Cons d ds)
        show ?thesis
        proof (cases "isTrailSurrogate d")
          case True
          with nu lead Cons "2.IH"(2) [OF nu lead Cons True] show ?thesis
            by (cases "encodeURIComponent ds") (auto simp: emit_def)
        next
          case False
          with nu lead Cons show ?thesis by simp
        qed
      qed
    next
      case nl: False
      show ?thesis
      proof (cases "isTrailSurrogate c")
        case True
        with nu nl show ?thesis by simp
      next
        case False
        with nu nl "2.IH"(3) [OF nu nl False] show ?thesis
          by (cases "encodeURIComponent cs") (auto simp: emit_def)
      qed
    qed
  qed
qed

subsection \<open>The result of strToUtf8\<close>

lemma strToUtf8_fill_eq:
  "length res = length s \<Longrightarrow>
   strToUtf8_fill s res i = take i res @ map (\<lambda>c. toUint8 (unat c AND 0xFF)) (drop i s)"
proof (induction s res i rule: strToUtf8_fill.induct)
  case (1 s res i)
  show ?case
  proof (cases "i < length s")
    case False
    with "1.prems" show ?thesis by (simp add: strToUtf8_fill.simps [of s res i])
  next
    case True
    define b where "b = toUint8 (unat (s ! i) AND 0xFF)"
    define res' where "res' = res[i := b]"
    have step: "strToUtf8_fill s res i = strToUtf8_fill s res' (i + 1)"
      using True
      by (subst strToUtf8_fill.simps) (simp add: res'_def b_def charCodeAt_def toInt32_def)
    have ih: "strToUtf8_fill s res' (i + 1) =
              take (i + 1) res' @ map (\<lambda>c. toUint8 (unat c AND 0xFF)) (drop (i + 1) s)"
      using "1.IH" [OF True] "1.prems" True
      by (simp add: res'_def b_def charCodeAt_def toInt32_def)
    have tk: "take (i + 1) res' = take i res @ [b]"
      using True "1.prems" by (simp add: res'_def take_Suc_conv_app_nth)
    have dr: "drop i s = s ! i # drop (i + 1) s"
      using True by (simp add: Cons_nth_drop_Suc)
    show ?thesis unfolding step ih tk dr by (simp add: b_def)
  qed
qed

lemma low_byte_of_nat: "toUint8 (unat (of_nat b :: u16) AND 0xFF) = of_nat b"
proof -
  have "(b mod 65536) mod 256 = b mod 256"
    by (rule mod_mod_cancel) simp
  then have "take_bit 8 (b mod 65536 mod 256) = take_bit 8 b"
    by (simp add: take_bit_eq_mod)
  then show ?thesis
    by (simp add: toUint8_def and_255 unat_of_nat word_of_nat_eq_iff)
qed

lemma strToUtf8_result:
  "strToUtf8 h t = (if wellFormed t then Inr (map of_nat (utf8Units t)) else Inl URIError)"
proof (cases "wellFormed t")
  case False
  with encode_wellFormed [of t] show ?thesis by (simp add: strToUtf8_def)
next
  case True
  with encode_wellFormed [of t] obtain p where p: "encodeURIComponent t = Inr p" by blast
  define u :: jsstring where "u = map of_nat (utf8Units t)"
  have n: "unescape_native p = u" using unescape_native_encode [OF p] by (simp add: u_def)
  have f: "unescape_fallback p = u" using unescape_fallback_encode [OF p] by (simp add: u_def)
  have fill: "strToUtf8_fill u (replicate (length u) 0) 0 = map of_nat (utf8Units t)"
    by (simp add: strToUtf8_fill_eq u_def low_byte_of_nat)
  show ?thesis
    using True by (simp add: strToUtf8_def p call_unescape_def n f fill)
qed

subsection \<open>The escaping loop of utf8ToStr\<close>

lemma escape_fallback_loop_eq:
  "escape_fallback_loop s i acc = Inr (acc @ concat (map escape_fallback_unit (drop i s)))"
proof (induction s i acc rule: escape_fallback_loop.induct)
  case (1 s i acc)
  show ?case
  proof (cases "i < length s")
    case False
    then show ?thesis by (simp add: escape_fallback_loop.simps [of s i acc])
  next
    case True
    have dr: "drop i s = s ! i # drop (i + 1) s"
      using True by (simp add: Cons_nth_drop_Suc)
    have cc: "toInt32 (charCodeAt s i) = unat (s ! i)"
      using True by (simp add: charCodeAt_def toInt32_def)
    show ?thesis
    proof (cases "nonEscapedChar_test (s ! i)")
      case ne: True
      have step: "escape_fallback_loop s i acc = escape_fallback_loop s (i + 1) (acc @ [s ! i])"
        by (subst escape_fallback_loop.simps) (simp only: True ne if_True)
      have u: "escape_fallback_unit (s ! i) = [s ! i]"
        by (simp add: escape_fallback_unit_def ne)
      show ?thesis
        unfolding step "1.IH"(1) [OF True ne] dr
        by (simp add: u)
    next
      case ne: False
      define e where "e = escape_fallback_unit (s ! i)"
      have p: "(if unat (s ! i) \<ge> 256 then emit (js ''%u'') (intToHex (unat (s ! i)) 4)
                else emit (js ''%'') (intToHex (unat (s ! i)) 2)) = Inr e"
        by (simp add: e_def escape_fallback_unit_def ne intToHex_small)
      have step: "escape_fallback_loop s i acc = escape_fallback_loop s (i + 1) (acc @ e)"
        by (subst escape_fallback_loop.simps)
           (simp only: True ne if_True if_False cc Let_def p sum.case)
      have ih: "escape_fallback_loop s (i + 1) (acc @ e) =
                Inr ((acc @ e) @ concat (map escape_fallback_unit (drop (i + 1) s)))"
        by (rule "1.IH"(2) [OF True ne refl]) (simp only: cc p)
      show ?thesis unfolding step ih dr by (simp add: e_def)
    qed
  qed
qed

lemma escape_fallback_eq: "escape_fallback s = Inr (concat (map escape_fallback_unit s))"
  by (simp add: escape_fallback_def escape_fallback_loop_eq)

lemma utf8ToStr_decode_eq:
  "escape_avail h \<Longrightarrow>
   utf8ToStr_decode h bytes =
   decodeURIComponent (concat (map escape_fallback_unit (map ucast bytes)))"
  by (simp add: utf8ToStr_decode_def stringFromCharCodes_eq escape_fallback_eq andThen_def)

lemma utf8ToStr_decode_unavailable:
  "\<not> escape_avail h \<Longrightarrow> utf8ToStr_decode h bytes = Inl TypeError"
  by (simp add: utf8ToStr_decode_def call_escape_def andThen_def)

subsection \<open>One escaped octet\<close>

lemma hexPadded_byte:
  assumes "b < 256"
  shows "hexPadded b 2 = [hexDigitLower (b div 16), hexDigitLower (b mod 16)]"
proof (cases "b < 16")
  case True
  then have "toString16 b = [hexDigitLower b]" by (subst toString16.simps) simp
  with True show ?thesis
    by (simp add: hexPadded_def hexDigitLower_def)
next
  case False
  from assms have "b div 16 < 16" by simp
  then have "toString16 (b div 16) = [hexDigitLower (b div 16)]"
    by (subst toString16.simps) simp
  with False have "toString16 b = [hexDigitLower (b div 16), hexDigitLower (b mod 16)]"
    by (subst toString16.simps) simp
  then show ?thesis by (simp add: hexPadded_def)
qed

lemma hexByte_lower:
  assumes "b < 256"
  shows "hexByte (hexDigitLower (b div 16)) (hexDigitLower (b mod 16)) = Some b"
proof -
  from assms have hi: "b div 16 < 16" and lo: "b mod 16 < 16" by simp_all
  show ?thesis
    by (simp add: hexByte_def isHexDigit_hexDigitLower hexDigitVal_hexDigitLower hi lo)
qed

lemma nonEscapedChar_ascii: "nonEscapedChar_test c \<Longrightarrow> unat c < 0x80 \<and> c \<noteq> 0x25"
  by (auto simp: nonEscapedChar_test_def isAlphaNum_def)

lemma escape_fallback_unit_high:
  assumes "0x80 \<le> b" "b < 256"
  shows "escape_fallback_unit (of_nat b) =
         [0x25, hexDigitLower (b div 16), hexDigitLower (b mod 16)]"
proof -
  have u: "unat (of_nat b :: u16) = b" using assms by (simp add: unat_of_nat16)
  then have "\<not> nonEscapedChar_test (of_nat b)"
    using assms nonEscapedChar_ascii [of "of_nat b"] by auto
  then show ?thesis
    using assms by (simp add: escape_fallback_unit_def u hexPadded_byte js_def)
qed

subsection \<open>Steps of decodeURIComponent\<close>

lemma decode_lit:
  "c \<noteq> 0x25 \<Longrightarrow> decodeURIComponent (c # r) = emit [c] (decodeURIComponent r)"
  by (simp add: decodeURIComponent.simps)

lemma decode_pct_ascii:
  "hexByte a b = Some B \<Longrightarrow> B < 0x80 \<Longrightarrow>
   decodeURIComponent (0x25 # a # b # r) = emit [of_nat B] (decodeURIComponent r)"
  by (simp add: decodeURIComponent.simps)

lemma decode_pct_multi:
  "hexByte a b = Some B \<Longrightarrow> 0x80 \<le> B \<Longrightarrow> leadingOnes B = Suc k \<Longrightarrow> 0 < k \<Longrightarrow> k < 4 \<Longrightarrow>
   contOctets k r = Some (bs, r') \<Longrightarrow> utf8Value (B # bs) = Some v \<Longrightarrow>
   decodeURIComponent (0x25 # a # b # r) = emit (codeUnits v) (decodeURIComponent r')"
  by (simp add: decodeURIComponent.simps)

lemma decode_ascii_unit:
  assumes "unat c < 0x80"
  shows "decodeURIComponent (escape_fallback_unit c @ r) = emit [c] (decodeURIComponent r)"
proof (cases "nonEscapedChar_test c")
  case True
  with nonEscapedChar_ascii [OF True] show ?thesis
    by (simp add: escape_fallback_unit_def decode_lit)
next
  case False
  from assms have b: "unat c < 256" by simp
  have e: "escape_fallback_unit c =
           [0x25, hexDigitLower (unat c div 16), hexDigitLower (unat c mod 16)]"
    using False b by (simp add: escape_fallback_unit_def hexPadded_byte js_def)
  show ?thesis
    unfolding e using decode_pct_ascii [OF hexByte_lower [OF b] assms, of r] by simp
qed

text \<open>Continuation octets, escaped.\<close>

lemma contOctets_escaped:
  "\<forall>b \<in> set bs. 0x80 \<le> b \<and> b < 0xC0 \<Longrightarrow>
   contOctets (length bs) (concat (map (\<lambda>b. escape_fallback_unit (of_nat b)) bs) @ r) =
   Some (bs, r)"
proof (induction bs)
  case Nil
  then show ?case by simp
next
  case (Cons b bs)
  then have b: "0x80 \<le> b" "b < 256" "b div 64 = 2" by auto
  show ?case
    using Cons b by (simp add: escape_fallback_unit_high hexByte_lower)
qed

subsection \<open>Arithmetic of the UTF-8 bit fields\<close>

lemma mod_strip: "x < m \<Longrightarrow> (k * m + x) mod m = (x::nat)"
  by simp
lemma mod32_lead: "x < 32 \<Longrightarrow> (0xC0 + x) mod 32 = (x::nat)"
  using mod_strip [of x 32 6] by simp
lemma mod16_lead: "x < 16 \<Longrightarrow> (0xE0 + x) mod 16 = (x::nat)"
  using mod_strip [of x 16 14] by simp
lemma mod8_lead: "x < 8 \<Longrightarrow> (0xF0 + x) mod 8 = (x::nat)"
  using mod_strip [of x 8 30] by simp
lemma mod64_cont: "(0x80 + x mod 64) mod 64 = x mod (64::nat)"
  using mod_strip [of "x mod 64" 64 2] by simp
lemma split64: "(q::nat) div 64 * 64 + q mod 64 = q"
  by simp
lemma join3: "cp div 4096 * 4096 + cp div 64 mod 64 * 64 + cp mod 64 = (cp::nat)"
proof -
  define q where "q = cp div 64"
  have c: "cp div 4096 = q div 64" by (simp add: q_def div_mult2_eq [symmetric])
  have "q div 64 * 4096 = q div 64 * 64 * 64" by simp
  also have "\<dots> + q mod 64 * 64 = (q div 64 * 64 + q mod 64) * 64"
    by (simp only: add_mult_distrib)
  finally have "q div 64 * 4096 + q mod 64 * 64 = q * 64" by (simp only: split64)
  then show ?thesis unfolding c by (simp add: q_def)
qed
lemma join4: "cp div 262144 * 262144 + cp div 4096 mod 64 * 4096 + cp div 64 mod 64 * 64 +
             cp mod 64 = (cp::nat)"
proof -
  define q where "q = cp div 4096"
  have c: "cp div 262144 = q div 64" by (simp add: q_def div_mult2_eq [symmetric])
  have "q div 64 * 262144 = q div 64 * 64 * 4096" by simp
  also have "\<dots> + q mod 64 * 4096 = (q div 64 * 64 + q mod 64) * 4096"
    by (simp only: add_mult_distrib)
  finally have "q div 64 * 262144 + q mod 64 * 4096 = q * 4096" by (simp only: split64)
  then have "cp div 262144 * 262144 + cp div 4096 mod 64 * 4096 = cp div 4096 * 4096"
    unfolding c by (simp add: q_def)
  then show ?thesis using join3 [of cp] by simp
qed

subsection \<open>Decoding the escaped octets of one code point\<close>

lemma decode_lead:
  assumes B: "0x80 \<le> B" "B < 256"
    and n: "leadingOnes B = Suc (length bs)" "0 < length bs" "length bs < 4"
    and c: "\<forall>b \<in> set bs. 0x80 \<le> b \<and> b < 0xC0"
    and v: "utf8Value (B # bs) = Some v"
  shows "decodeURIComponent (escaped_octets (B # bs) @ r) =
         emit (codeUnits v) (decodeURIComponent r)"
proof -
  have "escaped_octets (B # bs) @ r =
        0x25 # hexDigitLower (B div 16) # hexDigitLower (B mod 16) # (escaped_octets bs @ r)"
    by (simp add: escape_fallback_unit_high [OF B])
  then show ?thesis
    using decode_pct_multi [OF hexByte_lower [OF B(2)] B(1) n contOctets_escaped [OF c] v]
    by simp
qed

lemma decode_codepoint:
  assumes "cp < 0x110000" "\<not> (0xD800 \<le> cp \<and> cp \<le> 0xDFFF)"
  shows "decodeURIComponent (escaped_octets (utf8Octets cp) @ r) =
         emit (codeUnits cp) (decodeURIComponent r)"
proof -
  consider (one) "cp < 0x80" | (two) "0x80 \<le> cp" "cp < 0x800"
    | (three) "0x800 \<le> cp" "cp < 0x10000" | (four) "0x10000 \<le> cp"
    by linarith
  then show ?thesis
  proof cases
    case one
    then have u: "unat (of_nat cp :: u16) = cp" by (simp add: unat_of_nat16)
    have "decodeURIComponent (escape_fallback_unit (of_nat cp) @ r) =
          emit [of_nat cp] (decodeURIComponent r)"
      by (rule decode_ascii_unit) (simp add: u one)
    with one show ?thesis by (simp add: utf8Octets_def codeUnits_def)
  next
    case two
    define b0 where "b0 = 0xC0 + cp div 64"
    define b1 where "b1 = 0x80 + cp mod 64"
    have o: "utf8Octets cp = [b0, b1]" using two by (simp add: utf8Octets_def b0_def b1_def)
    have r0: "0xC0 \<le> b0" "b0 < 0xE0" using two by (simp_all add: b0_def)
    have r1: "0x80 \<le> b1" "b1 < 0xC0" by (simp_all add: b1_def)
    have m0: "b0 mod 32 = cp div 64"
      unfolding b0_def by (rule mod32_lead) (use two in simp)
    have m1: "b1 mod 64 = cp mod 64"
      unfolding b1_def by (rule mod64_cont)
    have v: "utf8Value [b0, b1] = Some cp"
      using two by (simp add: utf8Value_def m0 m1)
    show ?thesis
      unfolding o
      by (rule decode_lead) (use r0 r1 v in \<open>simp_all add: leadingOnes_def\<close>)
  next
    case three
    define b0 where "b0 = 0xE0 + cp div 4096"
    define b1 where "b1 = 0x80 + cp div 64 mod 64"
    define b2 where "b2 = 0x80 + cp mod 64"
    have o: "utf8Octets cp = [b0, b1, b2]"
      using three by (simp add: utf8Octets_def b0_def b1_def b2_def)
    have r0: "0xE0 \<le> b0" "b0 < 0xF0" using three by (simp_all add: b0_def)
    have r1: "0x80 \<le> b1" "b1 < 0xC0" by (simp_all add: b1_def)
    have r2: "0x80 \<le> b2" "b2 < 0xC0" by (simp_all add: b2_def)
    have m0: "b0 mod 16 = cp div 4096"
      unfolding b0_def by (rule mod16_lead) (use three in simp)
    have m1: "b1 mod 64 = cp div 64 mod 64"
      unfolding b1_def using mod64_cont [of "cp div 64"] by simp
    have m2: "b2 mod 64 = cp mod 64"
      unfolding b2_def by (rule mod64_cont)
    note s = join3 [of cp]
    have v: "utf8Value [b0, b1, b2] = Some cp"
      using three assms(2) by (simp add: utf8Value_def m0 m1 m2 s)
    show ?thesis
      unfolding o
      by (rule decode_lead) (use r0 r1 r2 v in \<open>simp_all add: leadingOnes_def\<close>)
  next
    case four
    define b0 where "b0 = 0xF0 + cp div 262144"
    define b1 where "b1 = 0x80 + cp div 4096 mod 64"
    define b2 where "b2 = 0x80 + cp div 64 mod 64"
    define b3 where "b3 = 0x80 + cp mod 64"
    have o: "utf8Octets cp = [b0, b1, b2, b3]"
      using four by (simp add: utf8Octets_def b0_def b1_def b2_def b3_def)
    have r0: "0xF0 \<le> b0" "b0 < 0xF8" using assms(1) by (simp_all add: b0_def)
    have r1: "0x80 \<le> b1" "b1 < 0xC0" by (simp_all add: b1_def)
    have r2: "0x80 \<le> b2" "b2 < 0xC0" by (simp_all add: b2_def)
    have r3: "0x80 \<le> b3" "b3 < 0xC0" by (simp_all add: b3_def)
    have m0: "b0 mod 8 = cp div 262144"
      unfolding b0_def by (rule mod8_lead) (use assms(1) in simp)
    have m1: "b1 mod 64 = cp div 4096 mod 64"
      unfolding b1_def using mod64_cont [of "cp div 4096"] by simp
    have m2: "b2 mod 64 = cp div 64 mod 64"
      unfolding b2_def using mod64_cont [of "cp div 64"] by simp
    have m3: "b3 mod 64 = cp mod 64"
      unfolding b3_def by (rule mod64_cont)
    note s = join4 [of cp]
    have v: "utf8Value [b0, b1, b2, b3] = Some cp"
      using four assms(1) by (simp add: utf8Value_def m0 m1 m2 m3 s)
    show ?thesis
      unfolding o
      by (rule decode_lead) (use r0 r1 r2 r3 v in \<open>simp_all add: leadingOnes_def\<close>)
  qed
qed

subsection \<open>Code units of a code point\<close>

lemma codeUnits_bmp: "codeUnits (unat c) = [c]"
  using unat_u16_less [of c] by (simp add: codeUnits_def)

lemma codeUnits_pair:
  assumes "isLeadSurrogate c" "isTrailSurrogate d"
  shows "codeUnits (surrogatePairToCodePoint c d) = [c, d]"
proof -
  define x where "x = unat c - 0xD800"
  define y where "y = unat d - 0xDC00"
  have x: "x < 1024" "unat c = x + 0xD800"
    using assms(1) by (auto simp: x_def isLeadSurrogate_def)
  have y: "y < 1024" "unat d = y + 0xDC00"
    using assms(2) by (auto simp: y_def isTrailSurrogate_def)
  have cp: "surrogatePairToCodePoint c d = x * 1024 + y + 0x10000"
    by (simp add: surrogatePairToCodePoint_def x_def y_def)
  have hi: "(x * 1024 + y) div 1024 mod 1024 = x" using x(1) y(1) by simp
  have lo: "(x * 1024 + y) mod 1024 = y" using y(1) by simp
  have c: "(of_nat (x + 0xD800) :: u16) = c" and d: "(of_nat (y + 0xDC00) :: u16) = d"
    using x(2) y(2) by (metis of_nat_unat16)+
  have big: "\<not> x * 1024 + y + 0x10000 < 0x10000" by simp
  have sub: "x * 1024 + y + 0x10000 - 0x10000 = x * 1024 + y" by simp
  show ?thesis
    unfolding codeUnits_def cp by (simp only: big if_False sub hi lo c d)
qed

subsection \<open>Decoding the escaped UTF-8 encoding of a well-formed string\<close>

lemma decode_utf8Units:
  "wellFormed t \<Longrightarrow> decodeURIComponent (escaped_octets (utf8Units t)) = Inr t"
proof (induction t rule: wellFormed.induct)
  case 1
  then show ?case by (simp add: decodeURIComponent.simps)
next
  case (2 c cs)
  show ?case
  proof (cases "isLeadSurrogate c")
    case lead: True
    with "2.prems" obtain d ds where cs: "cs = d # ds" and tr: "isTrailSurrogate d"
      and wf: "wellFormed ds"
      by (cases cs) auto
    define cp where "cp = surrogatePairToCodePoint c d"
    have b: "cp < 0x110000" "\<not> (0xD800 \<le> cp \<and> cp \<le> 0xDFFF)"
      using surrogatePair_bound [OF lead tr] by (simp_all add: cp_def)
    have "escaped_octets (utf8Units (c # cs)) =
          escaped_octets (utf8Octets cp) @ escaped_octets (utf8Units ds)"
      using lead cs by (simp add: cp_def)
    then have "decodeURIComponent (escaped_octets (utf8Units (c # cs))) =
               emit (codeUnits cp) (decodeURIComponent (escaped_octets (utf8Units ds)))"
      using decode_codepoint [OF b] by simp
    also have "\<dots> = Inr ([c, d] @ ds)"
      using "2.IH"(1) [OF lead cs wf] codeUnits_pair [OF lead tr] by (simp add: cp_def)
    finally show ?thesis using cs by simp
  next
    case nl: False
    with "2.prems" have nt: "\<not> isTrailSurrogate c" and wf: "wellFormed cs" by simp_all
    have b: "unat c < 0x110000" "\<not> (0xD800 \<le> unat c \<and> unat c \<le> 0xDFFF)"
      using unat_u16_less [of c] nl nt
      by (auto simp: isLeadSurrogate_def isTrailSurrogate_def)
    have "escaped_octets (utf8Units (c # cs)) =
          escaped_octets (utf8Octets (unat c)) @ escaped_octets (utf8Units cs)"
      using nl by simp
    then have "decodeURIComponent (escaped_octets (utf8Units (c # cs))) =
               emit (codeUnits (unat c)) (decodeURIComponent (escaped_octets (utf8Units cs)))"
      using decode_codepoint [OF b] by simp
    also have "\<dots> = Inr ([c] @ cs)"
      using "2.IH"(2) [OF nl wf] by (simp add: codeUnits_bmp)
    finally show ?thesis by simp
  qed
qed

subsection \<open>The byte order mark\<close>

lemma utf8ToStr_bom_take:
  "utf8ToStr_bom data = (if take 3 data = [0xEF, 0xBB, 0xBF] then drop 3 data else data)"
proof -
  have e: "unat (x :: u8) = 0xEF \<longleftrightarrow> x = 0xEF" "unat x = 0xBB \<longleftrightarrow> x = 0xBB"
    "unat x = 0xBF \<longleftrightarrow> x = 0xBF" for x
    using word_unat_eq_iff [of x "0xEF"] word_unat_eq_iff [of x "0xBB"]
      word_unat_eq_iff [of x "0xBF"]
    by simp_all
  show ?thesis
  proof (cases data)
    case Nil
    then show ?thesis by (simp add: utf8ToStr_bom_def at_u8_def)
  next
    case (Cons a d1)
    show ?thesis
    proof (cases d1)
      case Nil
      with Cons show ?thesis by (simp add: utf8ToStr_bom_def at_u8_def)
    next
      case (Cons b d2)
      show ?thesis
      proof (cases d2)
        case Nil
        with \<open>data = a # d1\<close> \<open>d1 = b # d2\<close> show ?thesis
          by (simp add: utf8ToStr_bom_def at_u8_def)
      next
        case (Cons c d3)
        with \<open>data = a # d1\<close> \<open>d1 = b # d2\<close> show ?thesis
          by (simp add: utf8ToStr_bom_def at_u8_def e)
      qed
    qed
  qed
qed

lemma utf8ToStr_bom_short: "length data < 3 \<Longrightarrow> utf8ToStr_bom data = data"
  by (auto simp: utf8ToStr_bom_take dest: arg_cong [where f = length])

lemma utf8Units_bound: "wellFormed t \<Longrightarrow> \<forall>b \<in> set (utf8Units t). b < 256"
proof (induction t rule: wellFormed.induct)
  case 1
  then show ?case by simp
next
  case (2 c cs)
  show ?case
  proof (cases "isLeadSurrogate c")
    case lead: True
    with "2.prems" obtain d ds where cs: "cs = d # ds" and tr: "isTrailSurrogate d"
      and wf: "wellFormed ds"
      by (cases cs) auto
    from surrogatePair_bound [OF lead tr]
    have "\<forall>b \<in> set (utf8Octets (surrogatePairToCodePoint c d)). b < 256"
      using utf8Octets_bound by blast
    with "2.IH"(1) [OF lead cs wf] lead cs show ?thesis by auto
  next
    case nl: False
    with "2.prems" have wf: "wellFormed cs" by simp
    have "\<forall>b \<in> set (utf8Octets (unat c)). b < 256"
      using utf8Octets_bound [of "unat c"] unat_u16_less [of c] by auto
    with "2.IH"(2) [OF nl wf] nl show ?thesis by auto
  qed
qed

lemma ucast_of_nat_byte: "b < 256 \<Longrightarrow> (ucast (of_nat b :: u8) :: u16) = of_nat b"
  by (simp add: unsigned_of_nat take_bit_eq_mod)

lemma map_ucast_bytes:
  "\<forall>b \<in> set bs. b < 256 \<Longrightarrow>
   map ucast (map of_nat bs :: uint8array) = (map of_nat bs :: jsstring)"
  by (induction bs) (simp_all add: ucast_of_nat_byte)

lemma of_nat_u8_inj: "a < 256 \<Longrightarrow> b < 256 \<Longrightarrow> (of_nat a :: u8) = of_nat b \<Longrightarrow> a = b"
  by (simp add: word_of_nat_eq_iff take_bit_eq_mod)

lemma first_octets:
  assumes "wellFormed (c # cs)" "c \<noteq> 0xFEFF"
  shows "\<exists>a r. utf8Units (c # cs) = a # r \<and> a < 256 \<and>
           (a = 0xEF \<longrightarrow> (\<exists>b r'. r = b # r' \<and> b < 256 \<and>
              (b = 0xBB \<longrightarrow> (\<exists>d r''. r' = d # r'' \<and> d < 256 \<and> d \<noteq> 0xBF))))"
proof (cases "isLeadSurrogate c")
  case lead: True
  with assms(1) obtain d ds where cs: "cs = d # ds" and tr: "isTrailSurrogate d"
    by (cases cs) auto
  define cp where "cp = surrogatePairToCodePoint c d"
  from surrogatePair_bound [OF lead tr] have b: "0x10000 \<le> cp" "cp < 0x110000"
    by (simp_all add: cp_def)
  then have "utf8Units (c # cs) = (0xF0 + cp div 262144) # tl (utf8Octets cp) @ utf8Units ds"
    using lead cs by (simp add: cp_def [symmetric] utf8Octets_def)
  moreover have "0xF0 + cp div 262144 < 256" "0xF0 + cp div 262144 \<noteq> 0xEF"
    using b by simp_all
  ultimately show ?thesis by blast
next
  case nl: False
  define cp where "cp = unat c"
  have cpb: "cp < 0x10000" using unat_u16_less [of c] by (simp add: cp_def)
  have ne: "cp \<noteq> 0xFEFF"
  proof
    assume "cp = 0xFEFF"
    then have "of_nat (unat c) = (0xFEFF :: u16)" by (simp add: cp_def)
    with assms(2) show False by (simp only: of_nat_unat16)
  qed
  have u: "utf8Units (c # cs) = utf8Octets cp @ utf8Units cs" using nl by (simp add: cp_def)
  consider (one) "cp < 0x80" | (two) "0x80 \<le> cp" "cp < 0x800" | (three) "0x800 \<le> cp"
    by linarith
  then show ?thesis
  proof cases
    case one
    then show ?thesis unfolding u by (simp add: utf8Octets_def)
  next
    case two
    then show ?thesis unfolding u by (simp add: utf8Octets_def)
  next
    case three
    have o: "utf8Octets cp = [0xE0 + cp div 4096, 0x80 + cp div 64 mod 64, 0x80 + cp mod 64]"
      using three cpb by (simp add: utf8Octets_def)
    have "\<not> (cp div 4096 = 15 \<and> cp div 64 mod 64 = 0x3B \<and> cp mod 64 = 0x3F)"
      using ne join3 [of cp] by auto
    then show ?thesis unfolding u o using cpb by auto
  qed
qed

lemma no_bom:
  assumes "wellFormed t" "take 1 t \<noteq> [0xFEFF]"
  shows "take 3 (map of_nat (utf8Units t) :: uint8array) \<noteq> [0xEF, 0xBB, 0xBF]"
proof (cases t)
  case Nil
  then show ?thesis by simp
next
  case (Cons c cs)
  with assms have wf: "wellFormed (c # cs)" and c: "c \<noteq> 0xFEFF" by simp_all
  from first_octets [OF wf c] obtain a r where
    a: "utf8Units (c # cs) = a # r" "a < 256"
       "a = 0xEF \<longrightarrow> (\<exists>b r'. r = b # r' \<and> b < 256 \<and>
              (b = 0xBB \<longrightarrow> (\<exists>d r''. r' = d # r'' \<and> d < 256 \<and> d \<noteq> 0xBF)))"
    by blast
  show ?thesis
  proof
    assume eq: "take 3 (map of_nat (utf8Units t) :: uint8array) = [0xEF, 0xBB, 0xBF]"
    then have "(of_nat a :: u8) = of_nat 0xEF" using Cons a(1) by simp
    then have "a = 0xEF" using of_nat_u8_inj [OF a(2), of "0xEF"] by simp
    with a(3) obtain b r' where
      b: "r = b # r'" "b < 256" "b = 0xBB \<longrightarrow> (\<exists>d r''. r' = d # r'' \<and> d < 256 \<and> d \<noteq> 0xBF)"
      by blast
    from eq have "(of_nat b :: u8) = of_nat 0xBB" using Cons a(1) b(1) by simp
    then have "b = 0xBB" using of_nat_u8_inj [OF b(2), of "0xBB"] by simp
    with b(3) obtain d r'' where d: "r' = d # r''" "d < 256" "d \<noteq> 0xBF" by blast
    from eq have "(of_nat d :: u8) = of_nat 0xBF" using Cons a(1) b(1) d(1) by simp
    then have "d = 0xBF" using of_nat_u8_inj [OF d(2), of "0xBF"] by simp
    with d(3) show False by simp
  qed
qed

subsection \<open>Errors of decodeURIComponent\<close>

lemma emit_Inl_iff: "emit s r = Inl e \<longleftrightarrow> r = Inl e"
  by (cases r) (simp_all add: emit_def)

lemma decode_only_URIError:
  assumes ne: "e \<noteq> URIError" "URIError \<noteq> e"
  shows "decodeURIComponent s \<noteq> Inl e"
proof (induction s rule: decodeURIComponent.induct)
  case 1
  then show ?case by (simp add: decodeURIComponent.simps ne)
next
  case (2 c s)
  show ?case
  proof (cases "c = 0x25")
    case False
    with "2.IH"(1) show ?thesis by (simp add: decodeURIComponent.simps emit_Inl_iff ne)
  next
    case True
    show ?thesis
    proof (cases s)
      case Nil
      with True show ?thesis by (simp add: decodeURIComponent.simps ne)
    next
      case s1: (Cons a s1)
      show ?thesis
      proof (cases s1)
        case Nil
        with True s1 show ?thesis by (simp add: decodeURIComponent.simps ne)
      next
        case s2: (Cons b s')
        show ?thesis
        proof (cases "hexByte a b")
          case None
          with True s1 s2 show ?thesis by (simp add: decodeURIComponent.simps ne)
        next
          case (Some B)
          note ih2 = "2.IH"(2) [OF _ s1 s2 Some]
          note ih3 = "2.IH"(3) [OF _ s1 s2 Some _ refl]
          show ?thesis
          proof (cases "B < 0x80")
            case lt: True
            with True s1 s2 Some ih2 show ?thesis
              by (simp add: decodeURIComponent.simps emit_Inl_iff ne)
          next
            case ge: False
            show ?thesis
            proof (cases "leadingOnes B = 1 \<or> leadingOnes B > 4")
              case bad: True
              with True s1 s2 Some ge show ?thesis
                by (simp add: decodeURIComponent.simps ne)
            next
              case ok: False
              show ?thesis
              proof (cases "contOctets (leadingOnes B - 1) s'")
                case None
                with True s1 s2 Some ge ok show ?thesis
                  by (simp add: decodeURIComponent.simps ne)
              next
                case co: (Some bsr)
                obtain bs r where bsr: "bsr = (bs, r)" by (cases bsr)
                show ?thesis
                proof (cases "utf8Value (B # bs)")
                  case None
                  with True s1 s2 Some ge ok co bsr show ?thesis
                    by (simp add: decodeURIComponent.simps ne)
                next
                  case v: (Some v)
                  have "decodeURIComponent r \<noteq> Inl e"
                    using ih3 True ge ok co bsr v by simp
                  with True s1 s2 Some ge ok co bsr v show ?thesis
                    by (simp add: decodeURIComponent.simps emit_Inl_iff ne)
                qed
              qed
            qed
          qed
        qed
      qed
    qed
  qed
qed

lemma decode_error: "decodeURIComponent s = Inl e \<Longrightarrow> e = URIError"
  using decode_only_URIError [of e s] by auto

subsection \<open>The two ways of escaping give the same decoded text\<close>

lemma escapes_octet_cases:
  assumes "escapes_octet s b"
  obtains (lit) c where "s = [c]" "b < 0x80" "c \<noteq> 0x25" "c = of_nat b"
        | (pct) X Y where "s = [0x25, X, Y]" "hexByte X Y = Some b"
proof -
  from assms consider c where "s = [c]" "b < 0x80" "b \<noteq> 0x25" "c = of_nat b"
    | X Y where "s = [0x25, X, Y]" "hexByte X Y = Some b"
    by (auto simp: escapes_octet_def split: list.splits)
  then show thesis
  proof cases
    case (1 c)
    have "c \<noteq> 0x25"
    proof
      assume "c = 0x25"
      with 1 have "unat (of_nat b :: u16) = 0x25" by simp
      with 1(2) have "b = 0x25" by (simp add: unat_of_nat16)
      with 1(3) show False by simp
    qed
    with 1 show ?thesis by (intro lit)
  next
    case (2 X Y)
    then show ?thesis by (intro pct)
  qed
qed

lemma contOctets_short: "length s < 3 \<Longrightarrow> contOctets (Suc k) s = None"
  by (cases "(Suc k, s)" rule: contOctets.cases) auto

lemma contOctets_lit: "c \<noteq> 0x25 \<Longrightarrow> contOctets (Suc k) (c # s) = None"
  by (cases "(Suc k, c # s)" rule: contOctets.cases) auto

lemma contOctets_encoded:
  "(\<And>b. b \<in> set bs \<Longrightarrow> escapes_octet (enc b) b) \<Longrightarrow>
   contOctets k (concat (map enc bs)) =
   (if k \<le> length bs \<and> list_all (\<lambda>b. b div 64 = 2) (take k bs)
    then Some (take k bs, concat (map enc (drop k bs))) else None)"
proof (induction k arbitrary: bs)
  case 0
  then show ?case by simp
next
  case (Suc k)
  show ?case
  proof (cases bs)
    case Nil
    then show ?thesis by (simp add: contOctets_short)
  next
    case (Cons b bs')
    have ih: "contOctets k (concat (map enc bs')) =
              (if k \<le> length bs' \<and> list_all (\<lambda>b. b div 64 = 2) (take k bs')
               then Some (take k bs', concat (map enc (drop k bs'))) else None)"
      by (rule Suc.IH) (simp add: Suc.prems Cons)
    have "escapes_octet (enc b) b" by (rule Suc.prems) (simp add: Cons)
    then show ?thesis
    proof (cases rule: escapes_octet_cases)
      case (lit c)
      then have "b div 64 \<noteq> 2" by simp
      with lit Cons show ?thesis by (simp add: contOctets_lit)
    next
      case (pct X Y)
      with Cons ih show ?thesis by simp
    qed
  qed
qed

lemma decode_encoded:
  "(\<And>b. b \<in> set bs \<Longrightarrow> escapes_octet (enc b) b) \<Longrightarrow>
   decodeURIComponent (concat (map enc bs)) = decodeOctets bs"
proof (induction bs rule: decodeOctets.induct)
  case 1
  then show ?case by (simp add: decodeURIComponent.simps)
next
  case (2 B bs)
  have enc: "escapes_octet (enc b) b" if "b \<in> set bs" for b
    by (rule "2.prems") (simp add: that)
  have co: "contOctets k (concat (map enc bs)) =
            (if k \<le> length bs \<and> list_all (\<lambda>b. b div 64 = 2) (take k bs)
             then Some (take k bs, concat (map enc (drop k bs))) else None)" for k
    by (rule contOctets_encoded) (rule enc)
  have "escapes_octet (enc B) B" by (rule "2.prems") simp
  then show ?case
  proof (cases rule: escapes_octet_cases)
    case (lit c)
    with "2.IH"(1) enc show ?thesis by (simp add: decode_lit)
  next
    case (pct X Y)
    show ?thesis
    proof (cases "B < 0x80")
      case True
      with pct "2.IH"(1) enc show ?thesis by (simp add: decode_pct_ascii)
    next
      case ge: False
      show ?thesis
      proof (cases "leadingOnes B = 1 \<or> leadingOnes B > 4")
        case True
        with pct ge show ?thesis by (simp add: decodeURIComponent.simps)
      next
        case ok: False
        define k where "k = leadingOnes B - 1"
        show ?thesis
        proof (cases "k \<le> length bs \<and> list_all (\<lambda>b. b div 64 = 2) (take k bs)")
          case False
          then have "contOctets k (concat (map enc bs)) = None" by (simp add: co)
          with pct ge ok False show ?thesis
            by (auto simp: decodeURIComponent.simps k_def)
        next
          case c: True
          then have cs: "contOctets k (concat (map enc bs)) =
                         Some (take k bs, concat (map enc (drop k bs)))"
            by (simp add: co)
          show ?thesis
          proof (cases "utf8Value (B # take k bs)")
            case None
            with pct ge ok c cs show ?thesis
              by (simp add: decodeURIComponent.simps k_def)
          next
            case (Some v)
            have "decodeURIComponent (concat (map enc (drop k bs))) = decodeOctets (drop k bs)"
              unfolding k_def
            proof (rule "2.IH"(2) [OF ge ok _ Some [unfolded k_def]])
              show "leadingOnes B - 1 \<le> length bs \<and>
                    list_all (\<lambda>b. b div 64 = 2) (take (leadingOnes B - 1) bs)"
                using c by (simp add: k_def)
            next
              fix b assume "b \<in> set (drop (leadingOnes B - 1) bs)"
              then have "b \<in> set bs" by (rule in_set_dropD)
              then show "escapes_octet (enc b) b" by (rule enc)
            qed
            with pct ge ok c cs Some show ?thesis
              by (simp add: decodeURIComponent.simps k_def)
          qed
        qed
      qed
    qed
  qed
qed

lemma hexByte_upper:
  assumes "b < 256"
  shows "hexByte (hexDigitUpper (b div 16)) (hexDigitUpper (b mod 16)) = Some b"
proof -
  from assms have hi: "b div 16 < 16" and lo: "b mod 16 < 16" by simp_all
  show ?thesis
    by (simp add: hexByte_def isHexDigit_hexDigitUpper hexDigitVal_hexDigitUpper hi lo)
qed

lemma escapeUnescaped_ascii: "escapeUnescaped c \<Longrightarrow> unat c < 0x80 \<and> unat c \<noteq> 0x25"
  by (auto simp: escapeUnescaped_def isAlphaNum_def)

lemma escapes_native: "escapes_octet (escape_unit (ucast (b :: u8))) (unat b)"
proof -
  have l: "unat b < 256" by (rule unat_u8_less)
  have o: "(ucast b :: u16) = of_nat (unat b)" by simp
  have u: "unat (ucast b :: u16) = unat b"
    unfolding o using l by (intro unat_of_nat16) simp
  show ?thesis
  proof (cases "escapeUnescaped (ucast b)")
    case True
    with escapeUnescaped_ascii [OF True] show ?thesis
      by (simp add: escape_unit_def escapes_octet_def u Let_def)
  next
    case False
    with l show ?thesis
      by (simp add: escape_unit_def escapes_octet_def u percentEncode_def hexByte_upper Let_def)
  qed
qed

lemma nonEscapedChar_not_pct: "nonEscapedChar_test c \<Longrightarrow> unat c \<noteq> 0x25"
  by (auto simp: nonEscapedChar_test_def isAlphaNum_def)

lemma escapes_fallback: "escapes_octet (escape_fallback_unit (ucast (b :: u8))) (unat b)"
proof -
  have l: "unat b < 256" by (rule unat_u8_less)
  have o: "(ucast b :: u16) = of_nat (unat b)" by simp
  have u: "unat (ucast b :: u16) = unat b"
    unfolding o using l by (intro unat_of_nat16) simp
  show ?thesis
  proof (cases "nonEscapedChar_test (ucast b)")
    case True
    with nonEscapedChar_ascii [OF True] nonEscapedChar_not_pct [OF True] show ?thesis
      by (simp add: escape_fallback_unit_def escapes_octet_def u)
  next
    case False
    with l show ?thesis
      by (simp add: escape_fallback_unit_def escapes_octet_def u hexPadded_byte js_def
          hexByte_lower)
  qed
qed

lemma decode_escape_native:
  "decodeURIComponent (escape_native (stringFromCharCodes bytes)) = decodeOctets (map unat bytes)"
proof -
  have "escape_native (stringFromCharCodes bytes) =
        concat (map (\<lambda>n. escape_unit (of_nat n)) (map unat bytes))"
    by (simp add: escape_native_def stringFromCharCodes_eq o_def)
  moreover have "escapes_octet (escape_unit (of_nat n)) n" if "n \<in> set (map unat bytes)" for n
    using that escapes_native by auto
  ultimately show ?thesis by (simp only: decode_encoded)
qed

lemma decode_escape_fallback:
  "andThen (escape_fallback (stringFromCharCodes bytes)) decodeURIComponent =
   decodeOctets (map unat bytes)"
proof -
  have "escape_fallback (stringFromCharCodes bytes) =
        Inr (concat (map (\<lambda>n. escape_fallback_unit (of_nat n)) (map unat bytes)))"
    by (simp add: escape_fallback_eq stringFromCharCodes_eq o_def)
  moreover have "escapes_octet (escape_fallback_unit (of_nat n)) n"
    if "n \<in> set (map unat bytes)" for n
    using that escapes_fallback by auto
  ultimately show ?thesis by (simp only: andThen_def sum.case decode_encoded)
qed

subsection \<open>The UTF-8 round trip\<close>

lemma decode_bytes:
  assumes "wellFormed t" "escape_avail h"
  shows "utf8ToStr_decode h (map of_nat (utf8Units t)) = Inr t"
proof -
  have m: "map ucast (map of_nat (utf8Units t) :: uint8array) =
           (map of_nat (utf8Units t) :: jsstring)"
    by (rule map_ucast_bytes [OF utf8Units_bound [OF assms(1)]])
  have c: "concat (map escape_fallback_unit (map of_nat (utf8Units t))) =
           escaped_octets (utf8Units t)"
    by (simp add: o_def)
  show ?thesis
    unfolding utf8ToStr_decode_eq [OF assms(2)] m c by (rule decode_utf8Units [OF assms(1)])
qed

lemma contOctets_numeral:
  "contOctets (numeral k) s = contOctets (Suc (pred_numeral k)) s"
  by (simp add: numeral_eq_Suc)

lemmas char_class_defs =
  isLeadSurrogate_def isTrailSurrogate_def uriUnescaped_def isAlphaNum_def
  nonEscapedChar_test_def isHexDigit_def isLowerHexDigit_def

text \<open>
  Claim C1, as stated: decoding the UTF-8 encoding of any text gives the text back. The
  text U+FEFF, "a" is encoded with the octets EF BB BF first, which the decoder strips as
  a byte order mark; and the text that is one unpaired surrogate is not encoded at all.
\<close>

theorem utf8_roundtrip_counterexample:
  "strToUtf8 browser [0xFEFF, 0x61] = Inr [0xEF, 0xBB, 0xBF, 0x61] \<and>
   utf8ToStr browser [0xEF, 0xBB, 0xBF, 0x61] = Inr [0x61] \<and>
   strToUtf8 browser [0xD800] = Inl URIError"
proof (intro conjI)
  show "strToUtf8 browser [0xFEFF, 0x61] = Inr [0xEF, 0xBB, 0xBF, 0x61]"
    by (simp add: strToUtf8_result char_class_defs utf8Octets_def)
  have "utf8ToStr_decode browser (map of_nat (utf8Units [0x61])) = Inr [0x61]"
    by (rule decode_bytes) (simp_all add: char_class_defs browser_def)
  then show "utf8ToStr browser [0xEF, 0xBB, 0xBF, 0x61] = Inr [0x61]"
    by (simp add: utf8ToStr_def utf8ToStr_bom_take char_class_defs utf8Octets_def)
  show "strToUtf8 browser [0xD800] = Inl URIError"
    by (simp add: strToUtf8_result char_class_defs)
qed

text \<open>
  Claim C1, amended. For every text that has no unpaired surrogate and does not begin
  with U+FEFF, in a host that has \<^verbatim>\<open>escape\<close>, \<^verbatim>\<open>strToUtf8\<close> returns a buffer and
  \<^verbatim>\<open>utf8ToStr\<close> of that buffer returns the text.
\<close>

theorem utf8_roundtrip:
  assumes "wellFormed t" "take 1 t \<noteq> [0xFEFF]" "escape_avail h"
  shows "\<exists>bytes. strToUtf8 h t = Inr bytes \<and> utf8ToStr h bytes = Inr t"
proof (intro exI conjI)
  show "strToUtf8 h t = Inr (map of_nat (utf8Units t))"
    using assms(1) by (simp add: strToUtf8_result)
  show "utf8ToStr h (map of_nat (utf8Units t)) = Inr t"
    using no_bom [OF assms(1,2)] decode_bytes [OF assms(1,3)]
    by (simp add: utf8ToStr_def utf8ToStr_bom_take)
qed

theorem utf8_roundtrip_witness:
  "strToUtf8 browser [0xE9] = Inr [0xC3, 0xA9] \<and> utf8ToStr browser [0xC3, 0xA9] = Inr [0xE9]"
proof -
  have "wellFormed [0xE9]" "take 1 [0xE9 :: u16] \<noteq> [0xFEFF]" "escape_avail browser"
    by (simp_all add: char_class_defs browser_def)
  from utf8_roundtrip [OF this] obtain bytes where
    b: "strToUtf8 browser [0xE9] = Inr bytes" "utf8ToStr browser bytes = Inr [0xE9]"
    by blast
  have e: "strToUtf8 browser [0xE9] = Inr [0xC3, 0xA9]"
    by (simp add: strToUtf8_result char_class_defs utf8Octets_def)
  with b show ?thesis by simp
qed

subsection \<open>The byte order mark is stripped once\<close>

text \<open>
  Claim C6, as stated: for every byte sequence \<open>bytes\<close>, \<^verbatim>\<open>utf8ToStr\<close> of EF BB BF
  followed by \<open>bytes\<close> is \<^verbatim>\<open>utf8ToStr\<close> of \<open>bytes\<close>. When \<open>bytes\<close> is itself EF BB BF,
  the first is the text U+FEFF and the second the empty text.
\<close>

theorem utf8ToStr_bom_counterexample:
  "utf8ToStr browser ([0xEF, 0xBB, 0xBF] @ [0xEF, 0xBB, 0xBF]) = Inr [0xFEFF] \<and>
   utf8ToStr browser [0xEF, 0xBB, 0xBF] = Inr []"
proof (intro conjI)
  have "utf8ToStr_decode browser (map of_nat (utf8Units [0xFEFF])) = Inr [0xFEFF]"
    by (rule decode_bytes) (simp_all add: char_class_defs browser_def)
  then show "utf8ToStr browser ([0xEF, 0xBB, 0xBF] @ [0xEF, 0xBB, 0xBF]) = Inr [0xFEFF]"
    by (simp add: utf8ToStr_def utf8ToStr_bom_take char_class_defs utf8Octets_def)
  have "utf8ToStr_decode browser (map of_nat (utf8Units [])) = Inr []"
    by (rule decode_bytes) (simp_all add: browser_def)
  then show "utf8ToStr browser [0xEF, 0xBB, 0xBF] = Inr []"
    by (simp add: utf8ToStr_def utf8ToStr_bom_take)
qed

text \<open>
  Claim C6, amended. \<^verbatim>\<open>utf8ToStr\<close> strips one leading byte order mark: applied to
  EF BB BF followed by \<open>bytes\<close> it decodes \<open>bytes\<close> as they are, which is
  \<^verbatim>\<open>utf8ToStr\<close> of \<open>bytes\<close> whenever \<open>bytes\<close> does not itself begin with EF BB BF.
\<close>

theorem utf8ToStr_bom_stripped:
  "utf8ToStr h ([0xEF, 0xBB, 0xBF] @ bytes) = utf8ToStr_decode h bytes \<and>
   (take 3 bytes \<noteq> [0xEF, 0xBB, 0xBF] \<longrightarrow>
      utf8ToStr h ([0xEF, 0xBB, 0xBF] @ bytes) = utf8ToStr h bytes)"
  by (simp add: utf8ToStr_def utf8ToStr_bom_take)

theorem utf8ToStr_bom_stripped_witness:
  "utf8ToStr browser ([0xEF, 0xBB, 0xBF] @ [0xC3, 0xA9]) = utf8ToStr browser [0xC3, 0xA9]"
proof -
  have "take 3 [0xC3, 0xA9 :: u8] \<noteq> [0xEF, 0xBB, 0xBF]" by simp
  with utf8ToStr_bom_stripped [of browser "[0xC3, 0xA9]"] show ?thesis by blast
qed

subsection \<open>Buffers shorter than the byte order mark\<close>

lemma decode_truncated: "decodeURIComponent (js ''%ef%bb'') = Inl URIError"
  by (simp add: js_def, simp add: decodeURIComponent.simps,
      simp add: hexByte_def isHexDigit_def isLowerHexDigit_def hexDigitVal_def
        leadingOnes_def contOctets_numeral)

lemma escaped_ef_bb:
  "concat (map escape_fallback_unit (map ucast [0xEF, 0xBB :: u8])) = js ''%ef%bb''"
  by (simp add: escape_fallback_unit_def char_class_defs hexPadded_def toString16.simps
      hexDigitLower_def js_def)

lemma utf8ToStr_ef_bb: "utf8ToStr browser [0xEF, 0xBB] = Inl URIError"
proof -
  have b: "utf8ToStr_bom [0xEF, 0xBB] = [0xEF, 0xBB]" by (rule utf8ToStr_bom_short) simp
  have a: "escape_avail browser" by (simp add: browser_def)
  show ?thesis
    unfolding utf8ToStr_def b utf8ToStr_decode_eq [OF a] escaped_ef_bb
    by (rule decode_truncated)
qed

text \<open>
  Claim C10, as stated: a buffer shorter than three bytes is decoded in full, so that the
  buffer EF BB is neither taken for a byte order mark nor an error. The call with that
  buffer ends in a \<^verbatim>\<open>URIError\<close>.
\<close>

theorem utf8ToStr_short_counterexample:
  "utf8ToStr browser [0xEF, 0xBB] = Inl URIError"
  by (rule utf8ToStr_ef_bb)

text \<open>
  Claim C10, amended. For every buffer shorter than three bytes the test for the byte
  order mark reads index 2 out of range, which gives \<^verbatim>\<open>undefined\<close> and no match, not a
  failure; nothing is stripped and every byte is handed to the decoding steps (in a host
  with \<^verbatim>\<open>escape\<close>: each byte is escaped and the whole is percent-decoded). The result is
  that of the decoding steps, which for the buffer EF BB is a \<^verbatim>\<open>URIError\<close>, for a
  truncated UTF-8 sequence.
\<close>

theorem utf8ToStr_short:
  "length data < 3 \<Longrightarrow>
   at_u8 data 2 = None \<and> utf8ToStr_bom data = data \<and>
   utf8ToStr h data = utf8ToStr_decode h data \<and>
   (escape_avail h \<longrightarrow>
      utf8ToStr h data = decodeURIComponent (concat (map escape_fallback_unit (map ucast data))))"
  by (simp add: utf8ToStr_def utf8ToStr_bom_short utf8ToStr_decode_eq at_u8_def)

theorem utf8ToStr_short_witness:
  "at_u8 [0xEF, 0xBB] 2 = None \<and> utf8ToStr_bom [0xEF, 0xBB] = [0xEF, 0xBB] \<and>
   utf8ToStr browser [0xEF, 0xBB] = decodeURIComponent (js ''%ef%bb'')"
proof -
  have l: "length [0xEF, 0xBB :: u8] < 3" by simp
  have a: "escape_avail browser" by (simp add: browser_def)
  note t = utf8ToStr_short [OF l, of browser, unfolded escaped_ef_bb]
  from t a show ?thesis by blast
qed

subsection \<open>Errors\<close>

text \<open>
  Claim C7, as stated: no text given to \<^verbatim>\<open>strToUtf8\<close> raises an error. The text that is
  one unpaired surrogate raises a \<^verbatim>\<open>URIError\<close>, in a host with \<^verbatim>\<open>unescape\<close> and in one
  without.
\<close>

theorem strToUtf8_error_counterexample:
  "strToUtf8 browser [0xD800] = Inl URIError \<and> strToUtf8 bare_host [0xD800] = Inl URIError"
  by (simp add: strToUtf8_result char_class_defs)

text \<open>
  Claim C7, amended. \<^verbatim>\<open>strToLeUtf16\<close> and \<^verbatim>\<open>leUtf16ToStr\<close> raise no error (they are
  total functions into buffers and strings). \<^verbatim>\<open>strToUtf8\<close> raises an error exactly for
  a text with an unpaired surrogate, the \<^verbatim>\<open>URIError\<close> of \<^verbatim>\<open>encodeURIComponent\<close>, and
  returns a buffer for every other text. In a host that has \<^verbatim>\<open>escape\<close>, the escaping
  loop of \<^verbatim>\<open>utf8ToStr\<close> returns for every buffer and the result of \<^verbatim>\<open>utf8ToStr\<close> is
  that of its last step, \<^verbatim>\<open>decodeURIComponent\<close>, whose \<^verbatim>\<open>URIError\<close> is its only
  error. The empty text and the empty buffer give empty results.
\<close>

theorem codec_errors:
  "(\<forall>e. strToUtf8 h t = Inl e \<longrightarrow> e = URIError \<and> \<not> wellFormed t) \<and>
   (\<not> wellFormed t \<longrightarrow> strToUtf8 h t = Inl URIError) \<and>
   (wellFormed t \<longrightarrow> (\<exists>bytes. strToUtf8 h t = Inr bytes)) \<and>
   (\<forall>e. escape_avail h \<longrightarrow> utf8ToStr h data = Inl e \<longrightarrow>
      e = URIError \<and>
      (\<exists>escaped. escape_fallback (stringFromCharCodes (utf8ToStr_bom data)) = Inr escaped \<and>
         decodeURIComponent escaped = Inl URIError)) \<and>
   (escape_avail h \<longrightarrow>
      (\<exists>escaped. escape_fallback (stringFromCharCodes (utf8ToStr_bom data)) = Inr escaped \<and>
         utf8ToStr h data = decodeURIComponent escaped)) \<and>
   strToUtf8 h [] = Inr [] \<and> (escape_avail h \<longrightarrow> utf8ToStr h [] = Inr []) \<and>
   strToLeUtf16 [] = [] \<and> leUtf16ToStr [] = []"
proof -
  define escaped where
    "escaped = concat (map escape_fallback_unit (stringFromCharCodes (utf8ToStr_bom data)))"
  have esc: "escape_fallback (stringFromCharCodes (utf8ToStr_bom data)) = Inr escaped"
    by (simp add: escaped_def escape_fallback_eq)
  have res: "utf8ToStr h data = decodeURIComponent escaped" if "escape_avail h"
    using that by (simp add: utf8ToStr_def utf8ToStr_decode_def esc andThen_def)
  show ?thesis
  proof (intro conjI allI impI)
    fix e assume "strToUtf8 h t = Inl e"
    then show "e = URIError" "\<not> wellFormed t"
      by (simp_all add: strToUtf8_result split: if_splits)
  next
    assume "\<not> wellFormed t"
    then show "strToUtf8 h t = Inl URIError" by (simp add: strToUtf8_result)
  next
    assume "wellFormed t"
    then show "\<exists>bytes. strToUtf8 h t = Inr bytes" by (simp add: strToUtf8_result)
  next
    fix e assume h: "escape_avail h" and e: "utf8ToStr h data = Inl e"
    from res [OF h] e have d: "decodeURIComponent escaped = Inl e" by simp
    from decode_error [OF d] show u: "e = URIError" .
    from esc d u
    show "\<exists>escaped. escape_fallback (stringFromCharCodes (utf8ToStr_bom data)) = Inr escaped \<and>
         decodeURIComponent escaped = Inl URIError"
      by blast
  next
    assume "escape_avail h"
    from esc res [OF this]
    show "\<exists>escaped. escape_fallback (stringFromCharCodes (utf8ToStr_bom data)) = Inr escaped \<and>
         utf8ToStr h data = decodeURIComponent escaped"
      by blast
  next
    show "strToUtf8 h [] = Inr []" by (simp add: strToUtf8_result)
  next
    assume "escape_avail h"
    then show "utf8ToStr h [] = Inr []"
      by (simp add: utf8ToStr_def utf8ToStr_bom_take utf8ToStr_decode_eq
          decodeURIComponent.simps)
  next
    show "strToLeUtf16 [] = []" by (simp add: strToLeUtf16_eq)
  next
    show "leUtf16ToStr [] = []" by (simp add: leUtf16ToStr_eq)
  qed
qed

theorem codec_errors_witness:
  "strToUtf8 browser [0xD800] = Inl URIError \<and>
   (\<exists>bytes. strToUtf8 browser [0xE9] = Inr bytes) \<and>
   utf8ToStr browser [0xEF, 0xBB] = Inl URIError \<and>
   (\<exists>escaped. escape_fallback (stringFromCharCodes (utf8ToStr_bom [0xEF, 0xBB])) = Inr escaped \<and>
      decodeURIComponent escaped = Inl URIError) \<and>
   (\<exists>escaped. escape_fallback (stringFromCharCodes (utf8ToStr_bom [0x41])) = Inr escaped \<and>
      utf8ToStr browser [0x41] = decodeURIComponent escaped) \<and>
   utf8ToStr browser [] = Inr []"
proof -
  have nw: "\<not> wellFormed [0xD800]" by (simp add: char_class_defs)
  have w: "wellFormed [0xE9]" by (simp add: char_class_defs)
  have a: "escape_avail browser" by (simp add: browser_def)
  note u = utf8ToStr_ef_bb
  from codec_errors [of browser "[0xD800]" "[0xEF, 0xBB]"] nw a u
  have 1: "strToUtf8 browser [0xD800] = Inl URIError"
    and 2: "\<exists>escaped. escape_fallback (stringFromCharCodes (utf8ToStr_bom [0xEF, 0xBB])) =
              Inr escaped \<and> decodeURIComponent escaped = Inl URIError"
    and 3: "utf8ToStr browser [] = Inr []"
    by blast+
  from codec_errors [of browser "[0xE9]" "[0x41]"] w a
  have 4: "\<exists>bytes. strToUtf8 browser [0xE9] = Inr bytes"
    and 5: "\<exists>escaped. escape_fallback (stringFromCharCodes (utf8ToStr_bom [0x41])) = Inr escaped \<and>
              utf8ToStr browser [0x41] = decodeURIComponent escaped"
    by blast+
  from 1 2 3 4 5 u show ?thesis by blast
qed

subsection \<open>The choice between the host's function and the fallback\<close>

text \<open>
  Claim C3. \<^verbatim>\<open>strToUtf8\<close> calls \<^verbatim>\<open>unescape\<close> when the host has it and runs its fallback
  otherwise, with the same result. \<^verbatim>\<open>utf8ToStr\<close> does the opposite of what the claim
  states: in a host without \<^verbatim>\<open>escape\<close> it calls \<^verbatim>\<open>escape\<close>, which throws, and in a host
  with \<^verbatim>\<open>escape\<close> it runs its fallback. The two ways of escaping themselves agree: the
  text of the host's \<^verbatim>\<open>escape\<close> and the text of the fallback decode to the same result.
\<close>

theorem utf8ToStr_escape_selection:
  "utf8ToStr \<lparr>unescape_avail = u, escape_avail = False\<rparr> data = Inl TypeError \<and>
   utf8ToStr \<lparr>unescape_avail = u, escape_avail = True\<rparr> data =
     andThen (escape_fallback (stringFromCharCodes (utf8ToStr_bom data))) decodeURIComponent \<and>
   decodeURIComponent (escape_native (stringFromCharCodes bytes)) =
     andThen (escape_fallback (stringFromCharCodes bytes)) decodeURIComponent \<and>
   (\<exists>escaped. escape_fallback (stringFromCharCodes bytes) = Inr escaped) \<and>
   strToUtf8 \<lparr>unescape_avail = False, escape_avail = e\<rparr> t =
     strToUtf8 \<lparr>unescape_avail = True, escape_avail = e\<rparr> t \<and>
   utf8ToStr bare_host [0x41] = Inl TypeError \<and> strToUtf8 bare_host [0x41] = Inr [0x41]"
proof -
  have paths: "decodeURIComponent (escape_native (stringFromCharCodes bytes)) =
               andThen (escape_fallback (stringFromCharCodes bytes)) decodeURIComponent"
    by (simp only: decode_escape_native decode_escape_fallback)
  have ret: "\<exists>escaped. escape_fallback (stringFromCharCodes bytes) = Inr escaped"
    by (simp add: escape_fallback_eq)
  have rest:
    "utf8ToStr \<lparr>unescape_avail = u, escape_avail = False\<rparr> data = Inl TypeError \<and>
     utf8ToStr \<lparr>unescape_avail = u, escape_avail = True\<rparr> data =
       andThen (escape_fallback (stringFromCharCodes (utf8ToStr_bom data))) decodeURIComponent \<and>
     strToUtf8 \<lparr>unescape_avail = False, escape_avail = e\<rparr> t =
       strToUtf8 \<lparr>unescape_avail = True, escape_avail = e\<rparr> t \<and>
     utf8ToStr bare_host [0x41] = Inl TypeError \<and> strToUtf8 bare_host [0x41] = Inr [0x41]"
    by (simp add: utf8ToStr_def utf8ToStr_decode_def call_escape_def strToUtf8_result
        bare_host_def char_class_defs utf8Octets_def andThen_def)
  from paths ret rest show ?thesis by blast
qed

end
